theory Spec2Isabelle
  imports Main "HOL-Library.Multiset"
begin

section \<open>The version propagator \<^verbatim>\<open>set-version.py\<close>\<close>

text \<open>
  The script reads \<^verbatim>\<open>variables.toml\<close> and rewrites five project files with
  \<^verbatim>\<open>re.sub\<close>. The embedding has four layers, each following the code it stands for:
  \<^item> the regular expressions of the seven calls, as lists of items, and a backtracking
    matcher for them;
  \<^item> the replacement templates of \<^verbatim>\<open>re.sub\<close> (backslash escapes, group references);
  \<^item> the function \<^verbatim>\<open>replace\<close> over a world of files, printed lines and writes;
  \<^item> the module's top level, statement by statement, where every exception ends the run
    and leaves the world as it was when the exception was raised.

  Text is a list of 8-bit characters, so a character stands for a code point below 256.
  On that range \<^verbatim>\<open>\d\<close> accepts exactly the ten ASCII digits and \<^verbatim>\<open>\s\<close> the twelve
  characters listed in \<open>is_space\<close>. A file's content is its text as it is stored.
  \<^verbatim>\<open>read_text\<close> reads it with universal newlines; \<^verbatim>\<open>write_text\<close> stores a text
  as it is, as on a system whose line separator is the line feed. A file that exists can
  be read and written: permission and decoding failures are outside the model.
\<close>

subsection \<open>Regular expressions\<close>

datatype cls = Lit char | Digit | Space

datatype item = One cls | Plus cls | Star cls | AtEnd

definition is_digit :: "char \<Rightarrow> bool" where
  "is_digit c = (c \<in> set ''0123456789'')"

definition is_space :: "char \<Rightarrow> bool" where
  "is_space c = (c \<in> set [CHR 0x09, CHR 0x0A, CHR 0x0B, CHR 0x0C, CHR 0x0D,
                            CHR 0x1C, CHR 0x1D, CHR 0x1E, CHR 0x1F, CHR 0x20,
                            CHR 0x85, CHR 0xA0])"

fun accepts :: "cls \<Rightarrow> char \<Rightarrow> bool" where
  "accepts (Lit a) c = (c = a)"
| "accepts Digit c = is_digit c"
| "accepts Space c = is_space c"

text \<open>
  \<open>match_here p must s\<close> runs the pattern \<open>p\<close> at the head of \<open>s\<close> the way the
  backtracking engine does: a repetition takes as many characters as it can and gives them
  back one at a time when the rest of the pattern fails. The result is the text left after
  the match, or \<open>None\<close>. The flag \<open>must\<close> is the engine's
  \<^verbatim>\<open>must_advance && ptr == start\<close>: while it is set, the end of the pattern is
  refused, so the match found is not empty. \<open>AtEnd\<close> is \<^verbatim>\<open>$\<close> without the multi-line
  flag: the end of the text, or the position before a line feed that ends the text.
\<close>

fun match_here :: "item list \<Rightarrow> bool \<Rightarrow> string \<Rightarrow> string option" where
  "match_here [] must s = (if must then None else Some s)"
| "match_here (AtEnd # p) must s =
     (if s = [] \<or> s = [CHR 0x0A] then match_here p must s else None)"
| "match_here (One c # p) must [] = None"
| "match_here (One c # p) must (x # xs) =
     (if accepts c x then match_here p False xs else None)"
| "match_here (Plus c # p) must [] = None"
| "match_here (Plus c # p) must (x # xs) =
     (if accepts c x then match_here (Star c # p) False xs else None)"
| "match_here (Star c # p) must [] = match_here p must []"
| "match_here (Star c # p) must (x # xs) =
     (if accepts c x
      then (case match_here (Star c # p) False xs of
              Some r \<Rightarrow> Some r
            | None \<Rightarrow> match_here p must (x # xs))
      else match_here p must (x # xs))"

subsection \<open>Replacement templates\<close>

text \<open>
  \<^verbatim>\<open>re.sub\<close> parses its replacement string before it looks for a match
  (\<^verbatim>\<open>parse_template\<close>). None of the program's patterns has a group, so the only group
  reference that parses is group 0, the whole match (\<open>Whole\<close>). A failure of the
  parser is \<open>None\<close> here and the exception \<open>TemplateError\<close> of \<open>re_sub\<close> below,
  which stands for any exception raised while the template is parsed: \<^verbatim>\<open>re.error\<close>,
  the \<^verbatim>\<open>IndexError\<close> for an unknown group name, and the \<^verbatim>\<open>ValueError\<close> of
  \<^verbatim>\<open>int\<close> for a number of more than 4300 digits (the interpreter's default limit).
\<close>

datatype part = Chr char | Whole

definition bslash :: char where
  "bslash = CHR 0x5C"

definition is_octdigit :: "char \<Rightarrow> bool" where
  "is_octdigit c = (c \<in> set ''01234567'')"

definition is_asciiletter :: "char \<Rightarrow> bool" where
  "is_asciiletter c =
     (c \<in> set ''abcdefghijklmnopqrstuvwxyzABCDEFGHIJKLMNOPQRSTUVWXYZ'')"

definition digit_val :: "char \<Rightarrow> nat" where
  "digit_val c = of_char c - 48"

text \<open>
  A token \<^verbatim>\<open>\c\<close> followed by the text \<open>r\<close> stands for some parts and leaves some
  text. The four functions below are the branches of \<^verbatim>\<open>parse_template\<close>, in its
  order: \<^verbatim>\<open>\g<name>\<close>, where a name made of ASCII digits is a group number, read
  by \<^verbatim>\<open>int\<close>, which takes at most 4300 digits, and any other name is unknown; the
  octal escapes that start with 0, of up to three digits; a
  digit from 1 to 9, which starts a three-digit octal escape or else a group number that
  no pattern of the program has; the named escapes, and any other character, where an
  ASCII letter is an error and anything else stays as it is written.
\<close>

definition esc_group :: "string \<Rightarrow> (part list \<times> string) option" where
  "esc_group r =
     (case r of
        [] \<Rightarrow> None
      | a # r1 \<Rightarrow>
          if a \<noteq> CHR ''<'' then None
          else let name = takeWhile (\<lambda>x. x \<noteq> CHR ''>'') r1;
                   rest = dropWhile (\<lambda>x. x \<noteq> CHR ''>'') r1
               in if rest = [] \<or> name = [] then None
                  else if (\<forall>x \<in> set name. x = CHR ''0'') \<and> length name \<le> 4300
                  then Some ([Whole], tl rest)
                  else None)"

definition esc_zero :: "string \<Rightarrow> (part list \<times> string) option" where
  "esc_zero r =
     (case r of
        [] \<Rightarrow> Some ([Chr (char_of (0::nat))], r)
      | a # r1 \<Rightarrow>
          if is_octdigit a
          then (case r1 of
                  [] \<Rightarrow> Some ([Chr (char_of (digit_val a))], r1)
                | b # r2 \<Rightarrow>
                    if is_octdigit b
                    then Some ([Chr (char_of (digit_val a * 8 + digit_val b))], r2)
                    else Some ([Chr (char_of (digit_val a))], r1))
          else Some ([Chr (char_of (0::nat))], r))"

definition esc_digit :: "char \<Rightarrow> string \<Rightarrow> (part list \<times> string) option" where
  "esc_digit c r =
     (case r of
        a # b # r2 \<Rightarrow>
          if is_octdigit c \<and> is_octdigit a \<and> is_octdigit b
          then (let v = digit_val c * 64 + digit_val a * 8 + digit_val b
                in if v > 255 then None else Some ([Chr (char_of v)], r2))
          else None
      | _ \<Rightarrow> None)"

definition esc_other :: "char \<Rightarrow> string \<Rightarrow> (part list \<times> string) option" where
  "esc_other c r =
     (if c = CHR ''a'' then Some ([Chr (CHR 0x07)], r)
      else if c = CHR ''b'' then Some ([Chr (CHR 0x08)], r)
      else if c = CHR ''f'' then Some ([Chr (CHR 0x0C)], r)
      else if c = CHR ''n'' then Some ([Chr (CHR 0x0A)], r)
      else if c = CHR ''r'' then Some ([Chr (CHR 0x0D)], r)
      else if c = CHR ''t'' then Some ([Chr (CHR 0x09)], r)
      else if c = CHR ''v'' then Some ([Chr (CHR 0x0B)], r)
      else if c = bslash then Some ([Chr bslash], r)
      else if is_asciiletter c then None
      else Some ([Chr bslash, Chr c], r))"

definition escape :: "char \<Rightarrow> string \<Rightarrow> (part list \<times> string) option" where
  "escape c r =
     (if c = CHR ''g'' then esc_group r
      else if c = CHR ''0'' then esc_zero r
      else if is_digit c then esc_digit c r
      else esc_other c r)"

lemma esc_group_length: "esc_group r = Some (ps, r') \<Longrightarrow> length r' \<le> length r"
proof -
  assume a: "esc_group r = Some (ps, r')"
  then obtain x r1 where r: "r = x # r1" and r': "r' = tl (dropWhile (\<lambda>x. x \<noteq> CHR ''>'') r1)"
    by (cases r) (auto simp: esc_group_def Let_def split: if_splits)
  have "length (tl (dropWhile (\<lambda>x. x \<noteq> CHR ''>'') r1)) \<le> length r1"
    using length_dropWhile_le [of "\<lambda>x. x \<noteq> CHR ''>''" r1] by simp
  with r r' show ?thesis by simp
qed

lemma esc_zero_length: "esc_zero r = Some (ps, r') \<Longrightarrow> length r' \<le> length r"
  by (cases r; cases "tl r") (auto simp: esc_zero_def split: if_splits)

lemma esc_digit_length: "esc_digit c r = Some (ps, r') \<Longrightarrow> length r' \<le> length r"
  by (cases r; cases "tl r") (auto simp: esc_digit_def Let_def split: if_splits)

lemma esc_other_length: "esc_other c r = Some (ps, r') \<Longrightarrow> length r' \<le> length r"
  unfolding esc_other_def by (simp split: if_splits)

lemma escape_length: "escape c r = Some (ps, r') \<Longrightarrow> length r' \<le> length r"
  unfolding escape_def
  by (simp split: if_splits add: esc_group_length esc_zero_length esc_digit_length esc_other_length)

function parse_template :: "string \<Rightarrow> part list option" where
  "parse_template [] = Some []"
| "parse_template (x # xs) =
     (if x \<noteq> bslash then map_option (Cons (Chr x)) (parse_template xs)
      else (case xs of
              [] \<Rightarrow> None
            | c # r \<Rightarrow>
                (case escape c r of
                   None \<Rightarrow> None
                 | Some (ps, r') \<Rightarrow> map_option (append ps) (parse_template r'))))"
  by pat_completeness auto
termination
  by (relation "measure length") (auto dest: escape_length)

fun expand :: "part list \<Rightarrow> string \<Rightarrow> string" where
  "expand [] m = []"
| "expand (Chr c # ps) m = c # expand ps m"
| "expand (Whole # ps) m = m @ expand ps m"

subsection \<open>Substitution\<close>

lemma match_here_length:
  "match_here p must s = Some r \<Longrightarrow> length r \<le> length s \<and> (must \<longrightarrow> length r < length s)"
proof (induction p must s arbitrary: r rule: match_here.induct)
  case (8 c p must x xs)
  then show ?case
    by (fastforce split: if_splits option.splits)
qed (auto split: if_splits)

text \<open>
  The loop of \<^verbatim>\<open>re.sub\<close>: search from the current position, copy the text before the
  match, append the expanded template, go on after the match. After an empty match the
  next search starts at the same position with \<^verbatim>\<open>must_advance\<close> set. A position
  where nothing matches is copied and the search moves one character on.
\<close>

function sub_loop :: "item list \<Rightarrow> part list \<Rightarrow> bool \<Rightarrow> string \<Rightarrow> string" where
  "sub_loop p t must s =
     (case match_here p must s of
        Some r \<Rightarrow>
          if length r < length s
          then expand t (take (length s - length r) s) @ sub_loop p t False r
          else expand t [] @ sub_loop p t True s
      | None \<Rightarrow>
          (case s of
             [] \<Rightarrow> []
           | x # xs \<Rightarrow> x # sub_loop p t False xs))"
  by pat_completeness auto
termination
  by (relation "measure (\<lambda>(p, t, must, s). 2 * length s + (if must then 0 else 1))")
     (auto dest: match_here_length)

datatype error =
    FileNotFoundError string
  | TOMLDecodeError
  | KeyError string
  | TypeError
  | TemplateError

definition re_sub :: "item list \<Rightarrow> string \<Rightarrow> string \<Rightarrow> error + string" where
  "re_sub pattern repl text =
     (case parse_template repl of
        None \<Rightarrow> Inl TemplateError
      | Some t \<Rightarrow> Inr (sub_loop pattern t False text))"

subsection \<open>The function \<^verbatim>\<open>replace\<close>\<close>

text \<open>
  The world the script acts on: the text files of the working directory by name, the lines
  printed so far, and the writes made so far (path and text written), oldest first.
\<close>

record world =
  files :: "string \<rightharpoonup> string"
  out :: "string list"
  writes :: "(string \<times> string) list"

text \<open>
  Reading in text mode translates line ends: a carriage return followed by a line feed,
  and a carriage return alone, are read as one line feed.
\<close>

fun universal_newlines :: "string \<Rightarrow> string" where
  "universal_newlines [] = []"
| "universal_newlines [x] = (if x = CHR 0x0D then [CHR 0x0A] else [x])"
| "universal_newlines (x # y # ys) =
     (if x = CHR 0x0D
      then (if y = CHR 0x0A then CHR 0x0A # universal_newlines ys
            else CHR 0x0A # universal_newlines (y # ys))
      else x # universal_newlines (y # ys))"

definition read_text :: "string \<Rightarrow> world \<Rightarrow> error + string" where
  "read_text file w =
     (case files w file of
        None \<Rightarrow> Inl (FileNotFoundError file)
      | Some stored \<Rightarrow> Inr (universal_newlines stored))"

definition write_text :: "string \<Rightarrow> string \<Rightarrow> world \<Rightarrow> world" where
  "write_text file text w =
     w\<lparr>files := (files w)(file \<mapsto> text), writes := writes w @ [(file, text)]\<rparr>"

definition print :: "string \<Rightarrow> world \<Rightarrow> world" where
  "print line w = w\<lparr>out := out w @ [line]\<rparr>"

text \<open>
  \<^verbatim>\<open>replace(file, pattern, replacement)\<close>. The path is one of five plain file names, for
  which \<^verbatim>\<open>Path(file)\<close> prints as the name itself; the model names a file by that text.
  Both exceptions are raised before anything is written or printed.
\<close>

definition replace :: "string \<Rightarrow> item list \<Rightarrow> string \<Rightarrow> world \<Rightarrow> error + world" where
  "replace file pattern replacement w =
     (case read_text file w of
        Inl e \<Rightarrow> Inl e
      | Inr text \<Rightarrow>
          (case re_sub pattern replacement text of
             Inl e \<Rightarrow> Inl e
           | Inr new_text \<Rightarrow>
               if text \<noteq> new_text
               then Inr (print (''Updated '' @ file) (write_text file new_text w))
               else Inr (print (''No changes needed in '' @ file) w)))"

subsection \<open>The configuration\<close>

text \<open>
  What \<^verbatim>\<open>open\<close> and \<^verbatim>\<open>tomllib.load\<close> make of \<^verbatim>\<open>variables.toml\<close>: the file is
  absent, or it is not a TOML document, or it is a document. The script looks two levels
  into the document, so the model has two levels: a top-level entry is a table or another
  value, and a value in a table is a string, an integer, a boolean, or a value of another
  kind (a float, a date, an array, a nested table) given by the text that formatting it in
  an f-string produces.
\<close>

datatype leaf = VStr string | VInt int | VBool bool | VOther string

datatype entry = Table "string \<rightharpoonup> leaf" | Scalar leaf

datatype cfgfile = Absent | Malformed | Parsed "string \<rightharpoonup> entry"

definition load :: "cfgfile \<Rightarrow> error + (string \<rightharpoonup> entry)" where
  "load cf =
     (case cf of
        Absent \<Rightarrow> Inl (FileNotFoundError ''variables.toml'')
      | Malformed \<Rightarrow> Inl TOMLDecodeError
      | Parsed d \<Rightarrow> Inr d)"

definition getitem :: "(string \<rightharpoonup> 'a) \<Rightarrow> string \<Rightarrow> error + 'a" where
  "getitem d k = (case d k of None \<Rightarrow> Inl (KeyError k) | Some v \<Rightarrow> Inr v)"

text \<open>Subscripting a value that is not a table with a string is a \<^verbatim>\<open>TypeError\<close>.\<close>

definition getitem_entry :: "entry \<Rightarrow> string \<Rightarrow> error + leaf" where
  "getitem_entry e k = (case e of Table t \<Rightarrow> getitem t k | Scalar v \<Rightarrow> Inl TypeError)"

text \<open>The decimal digits of a number, as \<^verbatim>\<open>str\<close> writes them.\<close>

function digits_of :: "nat \<Rightarrow> string" where
  "digits_of n =
     (if n < 10 then [''0123456789'' ! n]
      else digits_of (n div 10) @ [''0123456789'' ! (n mod 10)])"
  by pat_completeness auto
termination
  by (relation "measure id") auto

text \<open>The text an f-string puts in for a value: \<^verbatim>\<open>format(v, "")\<close>.\<close>

definition py_format :: "leaf \<Rightarrow> string" where
  "py_format v =
     (case v of
        VStr s \<Rightarrow> s
      | VInt i \<Rightarrow> (if i < 0 then CHR ''-'' # digits_of (nat (- i)) else digits_of (nat i))
      | VBool b \<Rightarrow> (if b then ''True'' else ''False'')
      | VOther s \<Rightarrow> s)"

subsection \<open>The seven calls\<close>

definition lits :: "string \<Rightarrow> item list" where
  "lits s = map (\<lambda>c. One (Lit c)) s"

text \<open>\<^verbatim>\<open>\d+\.\d+\.\d+\<close>\<close>

definition semver :: "item list" where
  "semver = [Plus Digit, One (Lit CHR ''.''), Plus Digit, One (Lit CHR ''.''), Plus Digit]"

text \<open>\<^verbatim>\<open>LABEL version=\"\d+\.\d+\.\d+\"\<close>, where \<^verbatim>\<open>\"\<close> is the quotation mark.\<close>

definition pat_label :: "item list" where
  \<open>pat_label = lits ''LABEL version="'' @ semver @ lits ''"''\<close>

text \<open>\<^verbatim>\<open>version\s*=\s*\"\d+\.\d+\.\d+\"\<close>\<close>

definition pat_cargo :: "item list" where
  \<open>pat_cargo =
     lits ''version'' @ [Star Space] @ lits ''='' @ [Star Space] @ lits ''"'' @ semver @ lits ''"''\<close>

text \<open>\<^verbatim>\<open>$OPENAPI_GENERATOR_VERSION=\"\d+\.\d+\.\d+\"\<close> and \<^verbatim>\<open>$SPEC_PATH=\"\d+\.\d+\.\d+\"\<close>\<close>

definition pat_ps_gen :: "item list" where
  \<open>pat_ps_gen = AtEnd # lits ''OPENAPI_GENERATOR_VERSION="'' @ semver @ lits ''"''\<close>

definition pat_ps_spec :: "item list" where
  \<open>pat_ps_spec = AtEnd # lits ''SPEC_PATH="'' @ semver @ lits ''"''\<close>

text \<open>\<^verbatim>\<open>OPENAPI_GENERATOR_VERSION=\"\d+\.\d+\.\d+\"\<close> and \<^verbatim>\<open>SPEC_PATH=\"\d+\.\d+\.\d+\"\<close>\<close>

definition pat_sh_gen :: "item list" where
  \<open>pat_sh_gen = lits ''OPENAPI_GENERATOR_VERSION="'' @ semver @ lits ''"''\<close>

definition pat_sh_spec :: "item list" where
  \<open>pat_sh_spec = lits ''SPEC_PATH="'' @ semver @ lits ''"''\<close>

text \<open>The f-strings of the calls, as functions of the formatted value.\<close>

definition repl_label :: "string \<Rightarrow> string" where
  \<open>repl_label v = ''LABEL version="'' @ v @ ''"''\<close>

definition repl_cargo :: "string \<Rightarrow> string" where
  \<open>repl_cargo v = ''version = "'' @ v @ ''"''\<close>

definition repl_ps_gen :: "string \<Rightarrow> string" where
  \<open>repl_ps_gen v = ''$OPENAPI_GENERATOR_VERSION="'' @ v @ ''"''\<close>

definition repl_ps_spec :: "string \<Rightarrow> string" where
  \<open>repl_ps_spec v = ''$SPEC_PATH="'' @ v @ ''"''\<close>

definition repl_sh_gen :: "string \<Rightarrow> string" where
  \<open>repl_sh_gen v = ''OPENAPI_GENERATOR_VERSION="'' @ v @ ''"''\<close>

definition repl_sh_spec :: "string \<Rightarrow> string" where
  \<open>repl_sh_spec v = ''SPEC_PATH="'' @ v @ ''"''\<close>

subsection \<open>The top level\<close>

text \<open>
  A run ends with the world it has reached and the exception that ended it, if any. The
  three combinators are the ways a statement of the script goes on to the next one:
  \<open>bind_val\<close> evaluates an expression that may raise, \<open>bind_call\<close> makes a call that may
  raise and changes the world, \<open>finish\<close> is the end of the script.
\<close>

type_synonym run = "world \<Rightarrow> world \<times> error option"

definition bind_val :: "error + 'a \<Rightarrow> ('a \<Rightarrow> run) \<Rightarrow> run" where
  "bind_val x k w = (case x of Inl e \<Rightarrow> (w, Some e) | Inr v \<Rightarrow> k v w)"

definition bind_call :: "(world \<Rightarrow> error + world) \<Rightarrow> run \<Rightarrow> run" where
  "bind_call f k w = (case f w of Inl e \<Rightarrow> (w, Some e) | Inr w' \<Rightarrow> k w')"

definition finish :: run where
  "finish w = (w, None)"

text \<open>
  The module's statements in order. The arguments of a call are evaluated before the
  call, so the subscripts inside the f-strings of the last four calls come right before
  the call they belong to.
\<close>

definition main :: "cfgfile \<Rightarrow> run" where
  "main cf =
     bind_val (load cf) (\<lambda>file.
     bind_val (getitem file ''version'') (\<lambda>vt.
     bind_val (getitem_entry vt ''version'') (\<lambda>version.
     bind_call (replace ''Dockerfile.deploy'' pat_label (repl_label (py_format version))) (
     bind_call (replace ''Dockerfile'' pat_label (repl_label (py_format version))) (
     bind_call (replace ''Cargo.toml'' pat_cargo (repl_cargo (py_format version))) (
     bind_val (getitem file ''openapi'') (\<lambda>oapid.
     bind_val (getitem_entry oapid ''oapigen-version'') (\<lambda>g1.
     bind_call (replace ''oapigen.ps1'' pat_ps_gen (repl_ps_gen (py_format g1))) (
     bind_val (getitem_entry oapid ''oapi-spec'') (\<lambda>s1.
     bind_call (replace ''oapigen.ps1'' pat_ps_spec (repl_ps_spec (py_format s1))) (
     bind_val (getitem_entry oapid ''oapigen-version'') (\<lambda>g2.
     bind_call (replace ''oapigen.sh'' pat_sh_gen (repl_sh_gen (py_format g2))) (
     bind_val (getitem_entry oapid ''oapi-spec'') (\<lambda>s2.
     bind_call (replace ''oapigen.sh'' pat_sh_spec (repl_sh_spec (py_format s2)))
     finish))))))))))))))"

subsection \<open>The calls as a list\<close>

text \<open>
  When the three values can be read, the run is the seven calls in the order of the
  script (\<open>main_calls\<close> below). The list form is used to speak about the number of
  calls and about other orders of the same calls.
\<close>

type_synonym call = "string \<times> item list \<times> string"

fun run_calls :: "call list \<Rightarrow> run" where
  "run_calls [] = finish"
| "run_calls ((f, p, r) # cs) = bind_call (replace f p r) (run_calls cs)"

definition calls :: "string \<Rightarrow> string \<Rightarrow> string \<Rightarrow> call list" where
  "calls version gen spec =
     [(''Dockerfile.deploy'', pat_label, repl_label version),
      (''Dockerfile'', pat_label, repl_label version),
      (''Cargo.toml'', pat_cargo, repl_cargo version),
      (''oapigen.ps1'', pat_ps_gen, repl_ps_gen gen),
      (''oapigen.ps1'', pat_ps_spec, repl_ps_spec spec),
      (''oapigen.sh'', pat_sh_gen, repl_sh_gen gen),
      (''oapigen.sh'', pat_sh_spec, repl_sh_spec spec)]"

text \<open>
  The field \<open>t.k\<close> of a document: present when \<open>t\<close> is a table that has the key \<open>k\<close>.
\<close>

definition field :: "(string \<rightharpoonup> entry) \<Rightarrow> string \<Rightarrow> string \<Rightarrow> leaf option" where
  "field d t k = (case d t of Some (Table tb) \<Rightarrow> tb k | _ \<Rightarrow> None)"


definition status_line :: "string \<Rightarrow> bool" where
  "status_line l =
     (\<exists>f. l = ''Updated '' @ f \<or> l = ''No changes needed in '' @ f)"

text \<open>
  The three texts the calls are made with, when all three fields can be read: the
  formatted values of \<open>version.version\<close>, \<open>openapi.oapigen-version\<close> and
  \<open>openapi.oapi-spec\<close>.
\<close>

definition config_values :: "cfgfile \<Rightarrow> (string \<times> string \<times> string) option" where
  "config_values cf =
     (case cf of
        Parsed d \<Rightarrow>
          (case field d ''version'' ''version'' of
             None \<Rightarrow> None
           | Some v \<Rightarrow>
               (case field d ''openapi'' ''oapigen-version'' of
                  None \<Rightarrow> None
                | Some g \<Rightarrow>
                    (case field d ''openapi'' ''oapi-spec'' of
                       None \<Rightarrow> None
                     | Some s \<Rightarrow> Some (py_format v, py_format g, py_format s))))
      | _ \<Rightarrow> None)"

subsection \<open>Example inputs\<close>

text \<open>
  The configuration of the specification's end-to-end scenario, and a working directory
  with the five target files.
\<close>

definition ex_cfg :: cfgfile where
  "ex_cfg = Parsed
     [''version'' \<mapsto> Table [''version'' \<mapsto> VStr ''2.0.1''],
      ''openapi'' \<mapsto> Table [''oapigen-version'' \<mapsto> VStr ''5.4.0'',
                              ''oapi-spec'' \<mapsto> VStr ''3.1.0'']]"

definition ex_world :: world where
  \<open>ex_world =
     \<lparr>files = [''Dockerfile.deploy'' \<mapsto> ''LABEL version="1.0.0"'',
               ''Dockerfile'' \<mapsto> ''FROM rust'',
               ''Cargo.toml'' \<mapsto> ''version="0.1.0"'',
               ''oapigen.ps1'' \<mapsto> ''$SPEC_PATH="1.2.3"'',
               ''oapigen.sh'' \<mapsto> ''SPEC_PATH="1.2.3"''],
      out = [], writes = []\<rparr>\<close>

text \<open>A document with no \<^verbatim>\<open>[openapi]\<close> table.\<close>

definition doc_no_openapi :: "string \<rightharpoonup> entry" where
  "doc_no_openapi = [''version'' \<mapsto> Table [''version'' \<mapsto> VStr ''2.0.1'']]"


text \<open>
  Two configurations with a backslash and the letter q in a value: in the version, and
  in the generator version.
\<close>

definition cfg_bad_version :: cfgfile where
  "cfg_bad_version = Parsed
     [''version'' \<mapsto> Table [''version'' \<mapsto> VStr (''2.0'' @ [bslash, CHR ''q''])],
      ''openapi'' \<mapsto> Table [''oapigen-version'' \<mapsto> VStr ''5.4.0'',
                              ''oapi-spec'' \<mapsto> VStr ''3.1.0'']]"

definition cfg_bad_gen :: cfgfile where
  "cfg_bad_gen = Parsed
     [''version'' \<mapsto> Table [''version'' \<mapsto> VStr ''2.0.1''],
      ''openapi'' \<mapsto> Table [''oapigen-version'' \<mapsto> VStr (''5.4'' @ [bslash, CHR ''q'']),
                              ''oapi-spec'' \<mapsto> VStr ''3.1.0'']]"


text \<open>
  A configuration whose generator version contains a text that the pattern for the
  specification path matches, and a working directory for it.
\<close>

definition cfg_nested :: cfgfile where
  \<open>cfg_nested = Parsed
     [''version'' \<mapsto> Table [''version'' \<mapsto> VStr ''2.0.1''],
      ''openapi'' \<mapsto> Table [''oapigen-version'' \<mapsto> VStr ''SPEC_PATH="1.2.3"'',
                              ''oapi-spec'' \<mapsto> VStr ''9.9.9'']]\<close>

definition world_nested :: world where
  \<open>world_nested =
     \<lparr>files = [''Dockerfile.deploy'' \<mapsto> '''', ''Dockerfile'' \<mapsto> '''',
               ''Cargo.toml'' \<mapsto> '''', ''oapigen.ps1'' \<mapsto> '''',
               ''oapigen.sh'' \<mapsto> ''OPENAPI_GENERATOR_VERSION="1.0.0"''],
      out = [], writes = []\<rparr>\<close>

text \<open>
  A configuration whose version is the text \<^verbatim>\<open>1.0.0" LABEL version="1.0.0\<close>, with
  two quotation marks in it.
\<close>

definition cfg_quoted :: cfgfile where
  \<open>cfg_quoted = Parsed
     [''version'' \<mapsto> Table [''version'' \<mapsto> VStr ''1.0.0" LABEL version="1.0.0''],
      ''openapi'' \<mapsto> Table [''oapigen-version'' \<mapsto> VStr ''5.4.0'',
                              ''oapi-spec'' \<mapsto> VStr ''3.1.0'']]\<close>

subsection \<open>Notions used to state and prove the properties\<close>

text \<open>
  Following the specification's words: \<open>single_pass p t e s ys\<close> says that \<open>ys\<close> is
  \<open>s\<close> with every non-overlapping match of \<open>p\<close> replaced, in one pass from left to
  right. At each place, in order: where the pattern matches, the match \<open>m\<close> gives way to
  the expansion of the template and the pass goes on behind the match; where it does not,
  the character is copied and the pass goes on one character further. The flag \<open>e\<close>
  says that the match just replaced was empty, so that the same empty match is not taken
  again.
\<close>

inductive single_pass :: "item list \<Rightarrow> part list \<Rightarrow> bool \<Rightarrow> string \<Rightarrow> string \<Rightarrow> bool"
  for p t where
  sp_end: "match_here p e [] = None \<Longrightarrow> single_pass p t e [] []"
| sp_copy: "match_here p e (x # xs) = None \<Longrightarrow> single_pass p t False xs ys \<Longrightarrow>
            single_pass p t e (x # xs) (x # ys)"
| sp_match: "match_here p e (m @ r) = Some r \<Longrightarrow> m \<noteq> [] \<Longrightarrow> single_pass p t False r ys \<Longrightarrow>
             single_pass p t e (m @ r) (expand t m @ ys)"
| sp_empty: "match_here p False s = Some s \<Longrightarrow> single_pass p t True s ys \<Longrightarrow>
             single_pass p t False s (expand t [] @ ys)"

text \<open>
  \<open>full p s\<close>: the text \<open>s\<close> as a whole is in the language of the pattern \<open>p\<close>
  (what \<^verbatim>\<open>re.fullmatch\<close> decides). It says what a pattern matches without a word on
  how the engine searches.
\<close>

fun full :: "item list \<Rightarrow> string \<Rightarrow> bool" where
  "full [] s = (s = [])"
| "full (One c # p) s = (case s of [] \<Rightarrow> False | x # xs \<Rightarrow> accepts c x \<and> full p xs)"
| "full (Plus c # p) s =
     (\<exists>n\<in>{1..length s}. (\<forall>x\<in>set (take n s). accepts c x) \<and> full p (drop n s))"
| "full (Star c # p) s =
     (\<exists>n\<in>{0..length s}. (\<forall>x\<in>set (take n s). accepts c x) \<and> full p (drop n s))"
| "full (AtEnd # p) s = ((s = [] \<or> s = [CHR 0x0A]) \<and> full p s)"

text \<open>The characters an item can consume.\<close>

fun takes :: "item \<Rightarrow> char \<Rightarrow> bool" where
  "takes (One c) x = accepts c x"
| "takes (Plus c) x = accepts c x"
| "takes (Star c) x = accepts c x"
| "takes AtEnd x = False"

text \<open>
  \<open>det p\<close>: the pattern has no anchor, and every repetition in it is followed by a
  literal character that the repeated class does not accept. For such a pattern the
  engine never has to give characters back.
\<close>

fun det :: "item list \<Rightarrow> bool" where
  "det [] = True"
| "det (One c # p) = det p"
| "det (Plus c # p) = (case p of One (Lit d) # q \<Rightarrow> \<not> accepts c d \<and> det q | _ \<Rightarrow> False)"
| "det (Star c # p) = (case p of One (Lit d) # q \<Rightarrow> \<not> accepts c d \<and> det q | _ \<Rightarrow> False)"
| "det (AtEnd # p) = False"

text \<open>
  \<open>dotted v\<close>: the value has the form digits, dot, digits, dot, digits, the form the
  patterns look for.
\<close>

definition dotted :: "string \<Rightarrow> bool" where
  "dotted v = full semver v"

text \<open>
  The states the engine can be in while it runs a pattern: the rests of the pattern, and
  for a repetition of one or more, the repetition of zero or more that follows the first
  character.
\<close>

fun states :: "item list \<Rightarrow> item list list" where
  "states [] = [[]]"
| "states (One c # p) = (One c # p) # states p"
| "states (Plus c # p) = (Plus c # p) # (Star c # p) # states p"
| "states (Star c # p) = (Star c # p) # states p"
| "states (AtEnd # p) = (AtEnd # p) # states p"

text \<open>
  \<open>sim c0 c1 xs ys\<close>: the two texts are equal up to a place where both go on with the
  two characters \<open>c0\<close>, \<open>c1\<close>; after that place they may differ.
\<close>

inductive sim :: "char \<Rightarrow> char \<Rightarrow> string \<Rightarrow> string \<Rightarrow> bool" for c0 c1 where
  sim_nil: "sim c0 c1 [] []"
| sim_cons: "sim c0 c1 xs ys \<Longrightarrow> sim c0 c1 (x # xs) (x # ys)"
| sim_lead: "sim c0 c1 (c0 # c1 # xs) (c0 # c1 # ys)"

section \<open>Basic facts\<close>

lemmas pattern_defs =
  pat_label_def pat_cargo_def pat_ps_gen_def pat_ps_spec_def pat_sh_gen_def pat_sh_spec_def
  lits_def semver_def

lemmas repl_defs =
  repl_label_def repl_cargo_def repl_ps_gen_def repl_ps_spec_def repl_sh_gen_def
  repl_sh_spec_def

lemmas char_defs = is_digit_def is_space_def bslash_def

lemmas run_defs =
  main_def load_def bind_val_def bind_call_def finish_def getitem_def getitem_entry_def
  py_format_def replace_def read_text_def write_text_def print_def re_sub_def

declare sub_loop.simps [simp del]

lemma read_text_Some: "files w f = Some x \<Longrightarrow> read_text f w = Inr (universal_newlines x)"
  by (simp add: read_text_def)

lemma read_text_None: "files w f = None \<Longrightarrow> read_text f w = Inl (FileNotFoundError f)"
  by (simp add: read_text_def)

lemma read_text_InrD:
  "read_text f w = Inr old \<Longrightarrow> \<exists>x. files w f = Some x \<and> old = universal_newlines x"
  by (auto simp: read_text_def split: option.splits)

lemma read_text_cong: "files v f = files w f \<Longrightarrow> read_text f v = read_text f w"
  by (simp add: read_text_def)

lemma replace_missing: "files w f = None \<Longrightarrow> replace f p r w = Inl (FileNotFoundError f)"
  by (simp add: replace_def read_text_def)

lemma replace_bad_template:
  "read_text f w = Inr old \<Longrightarrow> parse_template r = None \<Longrightarrow> replace f p r w = Inl TemplateError"
  by (simp add: replace_def re_sub_def)

lemma replace_changed:
  "read_text f w = Inr old \<Longrightarrow> re_sub p r old = Inr new \<Longrightarrow> new \<noteq> old \<Longrightarrow>
   replace f p r w =
     Inr \<lparr>files = (files w)(f \<mapsto> new), out = out w @ [''Updated '' @ f],
          writes = writes w @ [(f, new)]\<rparr>"
  by (auto simp: replace_def write_text_def print_def)

lemma replace_unchanged:
  "read_text f w = Inr old \<Longrightarrow> re_sub p r old = Inr old \<Longrightarrow>
   replace f p r w =
     Inr \<lparr>files = files w, out = out w @ [''No changes needed in '' @ f], writes = writes w\<rparr>"
  by (simp add: replace_def print_def)

lemma replace_cases:
  assumes "replace f p r w = Inr w'"
  obtains (changed) old t where "read_text f w = Inr old" "parse_template r = Some t"
    "sub_loop p t False old \<noteq> old"
    "w' = \<lparr>files = (files w)(f \<mapsto> sub_loop p t False old),
           out = out w @ [''Updated '' @ f],
           writes = writes w @ [(f, sub_loop p t False old)]\<rparr>"
  | (unchanged) old t where "read_text f w = Inr old" "parse_template r = Some t"
    "sub_loop p t False old = old"
    "w' = \<lparr>files = files w, out = out w @ [''No changes needed in '' @ f],
           writes = writes w\<rparr>"
proof -
  from assms obtain old where f: "read_text f w = Inr old"
    by (cases "read_text f w") (auto simp: replace_def)
  with assms obtain t where t: "parse_template r = Some t"
    by (cases "parse_template r") (auto simp: replace_bad_template)
  then have rs: "re_sub p r old = Inr (sub_loop p t False old)"
    by (simp add: re_sub_def)
  show thesis
  proof (cases "sub_loop p t False old = old")
    case True
    with replace_unchanged [OF f, of p r] rs assms that(2) [OF f t] show thesis by simp
  next
    case False
    with replace_changed [OF f rs] assms that(1) [OF f t] show thesis by simp
  qed
qed

lemma replace_out:
  "replace f p r w = Inr w' \<Longrightarrow> \<exists>l. out w' = out w @ [l] \<and> status_line l"
  by (erule replace_cases) (auto simp: status_line_def)

lemma replace_files_other:
  "replace f p r w = Inr w' \<Longrightarrow> f' \<noteq> f \<Longrightarrow> files w' f' = files w f'"
  by (erule replace_cases) auto

subsection \<open>The run as a list of calls\<close>

lemma field_SomeD:
  "field d t k = Some v \<Longrightarrow> \<exists>tb. d t = Some (Table tb) \<and> tb k = Some v"
  by (auto simp: field_def split: option.splits entry.splits)

lemma bind_val_Inr [simp]: "bind_val (Inr v) k = k v"
  by (rule ext) (simp add: bind_val_def)

lemma bind_val_Inl [simp]: "bind_val (Inl e) k w = (w, Some e)"
  by (simp add: bind_val_def)

lemma main_calls:
  assumes "config_values cf = Some (v, g, s)"
  shows "main cf = run_calls (calls v g s)"
proof -
  from assms obtain d lv lg ls where cf: "cf = Parsed d"
    and fv: "field d ''version'' ''version'' = Some lv"
    and fg: "field d ''openapi'' ''oapigen-version'' = Some lg"
    and fs: "field d ''openapi'' ''oapi-spec'' = Some ls"
    and v: "v = py_format lv" and g: "g = py_format lg" and s: "s = py_format ls"
    by (auto simp: config_values_def split: cfgfile.splits option.splits)
  from fv obtain vt where vt: "d ''version'' = Some (Table vt)" "vt ''version'' = Some lv"
    by (auto dest: field_SomeD)
  from fg fs obtain ot where ot: "d ''openapi'' = Some (Table ot)"
    "ot ''oapigen-version'' = Some lg" "ot ''oapi-spec'' = Some ls"
    by (auto dest!: field_SomeD)
  show ?thesis
    unfolding main_def cf
    by (simp add: load_def getitem_def getitem_entry_def vt ot calls_def v g s)
qed

lemma bind_call_fails:
  "(\<And>w'. \<exists>e. snd (k w') = Some e) \<Longrightarrow> \<exists>e. snd (bind_call f k w) = Some e"
  by (simp add: bind_call_def split: sum.split)

lemma main_fails:
  assumes "config_values cf = None"
  shows "\<exists>e. snd (main cf w) = Some e"
proof (cases cf)
  case Absent
  then show ?thesis by (simp add: main_def load_def)
next
  case Malformed
  then show ?thesis by (simp add: main_def load_def)
next
  case (Parsed d)
  show ?thesis
  proof (cases "field d ''version'' ''version''")
    case None
    then show ?thesis
      unfolding main_def Parsed
      by (auto simp: load_def getitem_def getitem_entry_def field_def
               split: option.splits entry.splits)
  next
    case (Some lv)
    then obtain vt where vt: "d ''version'' = Some (Table vt)" "vt ''version'' = Some lv"
      by (auto dest: field_SomeD)
    have rest: "\<exists>e. snd (bind_val (getitem d ''openapi'') (\<lambda>oapid.
       bind_val (getitem_entry oapid ''oapigen-version'') (\<lambda>g1.
       bind_call (replace ''oapigen.ps1'' pat_ps_gen (repl_ps_gen (py_format g1))) (
       bind_val (getitem_entry oapid ''oapi-spec'') (\<lambda>s1. k oapid g1 s1)))) w') = Some e"
      for k w'
    proof (cases "field d ''openapi'' ''oapigen-version''")
      case None
      then show ?thesis
        by (auto simp: getitem_def getitem_entry_def field_def
                 split: option.splits entry.splits)
    next
      case g: (Some lg)
      with assms Parsed Some have "field d ''openapi'' ''oapi-spec'' = None"
        by (auto simp: config_values_def split: option.splits)
      with g obtain ot where ot: "d ''openapi'' = Some (Table ot)"
        "ot ''oapigen-version'' = Some lg" "ot ''oapi-spec'' = None"
        by (auto simp: field_def split: option.splits entry.splits)
      have "\<exists>e. snd (bind_call f (bind_val (Inl (KeyError ''oapi-spec'')) kk) w') = Some e"
        for f kk
        by (rule bind_call_fails) simp
      then show ?thesis
        by (simp add: getitem_def getitem_entry_def ot)
    qed
    have "\<exists>e. snd (bind_call f1 (bind_call f2 (bind_call f3
       (bind_val (getitem d ''openapi'') (\<lambda>oapid.
       bind_val (getitem_entry oapid ''oapigen-version'') (\<lambda>g1.
       bind_call (replace ''oapigen.ps1'' pat_ps_gen (repl_ps_gen (py_format g1))) (
       bind_val (getitem_entry oapid ''oapi-spec'') (\<lambda>s1. k oapid g1 s1))))))) w) = Some e"
      for f1 f2 f3 k
      by (intro bind_call_fails rest)
    then show ?thesis
      unfolding main_def Parsed
      by (simp add: load_def getitem_def getitem_entry_def vt)
  qed
qed

lemma run_calls_out:
  "run_calls cs w = (w', None) \<Longrightarrow>
     \<exists>lines. out w' = out w @ lines \<and> length lines = length cs \<and>
             (\<forall>l\<in>set lines. status_line l)"
proof (induction cs arbitrary: w)
  case Nil
  then show ?case by (simp add: finish_def)
next
  case (Cons c cs)
  obtain f p r where c: "c = (f, p, r)" by (cases c)
  from Cons.prems obtain w1 where w1: "replace f p r w = Inr w1"
    and rest: "run_calls cs w1 = (w', None)"
    by (auto simp: c bind_call_def split: sum.splits)
  from replace_out [OF w1] obtain l where l: "out w1 = out w @ [l]" "status_line l"
    by blast
  from Cons.IH [OF rest] obtain lines where
    "out w' = out w1 @ lines" "length lines = length cs" "\<forall>l\<in>set lines. status_line l"
    by blast
  with l have "out w' = out w @ (l # lines) \<and> length (l # lines) = length (c # cs) \<and>
               (\<forall>x\<in>set (l # lines). status_line x)"
    by simp
  then show ?case by blast
qed

subsection \<open>Patterns that start with the end anchor\<close>

lemma match_anchor_lit:
  "c \<noteq> CHR 0x0A \<Longrightarrow> match_here (AtEnd # One (Lit c) # p) must s = None"
  by (cases s) auto

lemma sub_loop_no_match:
  "(\<And>u m. match_here p m u = None) \<Longrightarrow> sub_loop p t must s = s"
proof (induction s arbitrary: must)
  case Nil
  then show ?case by (subst sub_loop.simps) simp
next
  case (Cons x xs)
  then show ?case by (subst sub_loop.simps) simp
qed

lemma ps_gen_no_match: "match_here pat_ps_gen must s = None"
  by (simp add: pat_ps_gen_def lits_def match_anchor_lit)

lemma ps_spec_no_match: "match_here pat_ps_spec must s = None"
  by (simp add: pat_ps_spec_def lits_def match_anchor_lit)

subsection \<open>Templates without a backslash\<close>

lemma parse_template_plain:
  "bslash \<notin> set s \<Longrightarrow> parse_template s = Some (map Chr s)"
proof (induction s)
  case Nil
  show ?case by simp
next
  case (Cons a s)
  then have "a \<noteq> bslash" and "bslash \<notin> set s"
    by auto
  with Cons.IH show ?case
    by simp
qed

lemma expand_plain: "expand (map Chr s) m = s"
  by (induction s) auto

lemma repl_plain:
  "bslash \<notin> set v \<Longrightarrow>
     bslash \<notin> set (repl_label v) \<and> bslash \<notin> set (repl_cargo v) \<and>
     bslash \<notin> set (repl_ps_gen v) \<and> bslash \<notin> set (repl_ps_spec v) \<and>
     bslash \<notin> set (repl_sh_gen v) \<and> bslash \<notin> set (repl_sh_spec v)"
  by (simp add: repl_defs bslash_def)

subsection \<open>Files a failing run leaves alone\<close>

lemma replace_ps_gen_files:
  "replace f pat_ps_gen r w = Inr w' \<Longrightarrow> files w' = files w"
  by (erule replace_cases) (simp_all add: sub_loop_no_match ps_gen_no_match)

lemma bind_call_keeps:
  assumes "\<And>w1. \<forall>f. f \<notin> S \<longrightarrow> files (fst (k w1)) f = files w1 f"
      and "fp \<in> S"
  shows "\<forall>f. f \<notin> S \<longrightarrow> files (fst (bind_call (replace fp p r) k w)) f = files w f"
proof (cases "replace fp p r w")
  case (Inl e)
  then show ?thesis by (simp add: bind_call_def)
next
  case (Inr w1)
  have "files (fst (k w1)) f = files w f" if "f \<notin> S" for f
  proof -
    from that assms(2) have "f \<noteq> fp" by auto
    with replace_files_other [OF Inr] have "files w1 f = files w f" by simp
    with assms(1) [of w1] that show ?thesis by simp
  qed
  with Inr show ?thesis by (simp add: bind_call_def)
qed

lemma openapi_part_keeps:
  assumes "field d ''openapi'' ''oapigen-version'' = None \<or>
           field d ''openapi'' ''oapi-spec'' = None"
  shows "files (fst (bind_val (getitem d ''openapi'') (\<lambda>oapid.
       bind_val (getitem_entry oapid ''oapigen-version'') (\<lambda>g1.
       bind_call (replace ''oapigen.ps1'' pat_ps_gen (repl_ps_gen (py_format g1))) (
       bind_val (getitem_entry oapid ''oapi-spec'') (\<lambda>s1. k oapid g1 s1)))) w1)) = files w1"
proof (cases "field d ''openapi'' ''oapigen-version''")
  case None
  then show ?thesis
    by (auto simp: getitem_def getitem_entry_def field_def
             split: option.splits entry.splits)
next
  case (Some lg)
  with assms obtain ot where ot: "d ''openapi'' = Some (Table ot)"
    "ot ''oapigen-version'' = Some lg" "ot ''oapi-spec'' = None"
    by (auto simp: field_def split: option.splits entry.splits)
  have "files (fst (bind_call (replace f pat_ps_gen r)
                    (bind_val (Inl (KeyError ''oapi-spec'')) kk) w1)) = files w1" for f r kk
    by (cases "replace f pat_ps_gen r w1")
       (simp_all add: bind_call_def replace_ps_gen_files)
  then show ?thesis
    by (simp add: getitem_def getitem_entry_def ot)
qed

lemma main_no_version:
  assumes "cf = Absent \<or> cf = Malformed \<or>
           (\<exists>d. cf = Parsed d \<and> field d ''version'' ''version'' = None)"
  shows "\<exists>e. main cf w = (w, Some e)"
  using assms
proof (elim disjE exE conjE)
  assume "cf = Absent"
  then show ?thesis by (simp add: main_def load_def)
next
  assume "cf = Malformed"
  then show ?thesis by (simp add: main_def load_def)
next
  fix d
  assume "cf = Parsed d" and "field d ''version'' ''version'' = None"
  then show ?thesis
    by (auto simp: main_def load_def getitem_def getitem_entry_def field_def
             split: option.splits entry.splits)
qed

lemma main_no_openapi_keeps:
  assumes "field d ''openapi'' ''oapigen-version'' = None \<or>
           field d ''openapi'' ''oapi-spec'' = None"
      and "f \<notin> {''Dockerfile.deploy'', ''Dockerfile'', ''Cargo.toml''}"
  shows "files (fst (main (Parsed d) w)) f = files w f"
proof (cases "field d ''version'' ''version''")
  case None
  then have "\<exists>e. main (Parsed d) w = (w, Some e)"
    by (intro main_no_version) simp
  then show ?thesis by auto
next
  case (Some lv)
  then obtain vt where vt: "d ''version'' = Some (Table vt)" "vt ''version'' = Some lv"
    by (auto dest: field_SomeD)
  let ?S = "{''Dockerfile.deploy'', ''Dockerfile'', ''Cargo.toml''}"
  have "\<forall>f. f \<notin> ?S \<longrightarrow>
     files (fst (bind_call (replace ''Dockerfile.deploy'' p1 r1)
       (bind_call (replace ''Dockerfile'' p2 r2)
       (bind_call (replace ''Cargo.toml'' p3 r3)
       (bind_val (getitem d ''openapi'') (\<lambda>oapid.
       bind_val (getitem_entry oapid ''oapigen-version'') (\<lambda>g1.
       bind_call (replace ''oapigen.ps1'' pat_ps_gen (repl_ps_gen (py_format g1))) (
       bind_val (getitem_entry oapid ''oapi-spec'') (\<lambda>s1. k oapid g1 s1))))))) w)) f
     = files w f" for p1 r1 p2 r2 p3 r3 k
    by (intro bind_call_keeps) (simp_all add: openapi_part_keeps [OF assms(1)])
  with assms(2) show ?thesis
    unfolding main_def
    by (simp add: load_def getitem_def getitem_entry_def vt)
qed

subsection \<open>Calls on different files\<close>

lemma run_calls_append:
  "run_calls (xs @ ys) w =
     (case run_calls xs w of (w', None) \<Rightarrow> run_calls ys w' | (w', Some e) \<Rightarrow> (w', Some e))"
proof (induction xs arbitrary: w)
  case Nil
  show ?case by (simp add: finish_def)
next
  case (Cons c xs)
  obtain f p r where c: "c = (f, p, r)" by (cases c)
  show ?case
    by (cases "replace f p r w") (simp_all add: c bind_call_def Cons.IH)
qed

text \<open>
  A call reads the world only through the file it names, and adds to the lines and
  writes that are there.
\<close>

lemma replace_frame:
  assumes "replace f p r w = Inr w'" and "files v f = files w f"
  shows "\<exists>v' l. replace f p r v = Inr v' \<and> out w' = out w @ [l] \<and> out v' = out v @ [l] \<and>
           files v' f = files w' f \<and>
           (\<forall>g. g \<noteq> f \<longrightarrow> files w' g = files w g \<and> files v' g = files v g)"
  using assms(1)
proof (cases rule: replace_cases)
  case (changed old t)
  with read_text_cong [OF assms(2)] have "read_text f v = Inr old" by simp
  from replace_changed [OF this, of p r "sub_loop p t False old"] changed
  show ?thesis by (simp add: re_sub_def)
next
  case (unchanged old t)
  with read_text_cong [OF assms(2)] have "read_text f v = Inr old" by simp
  from replace_unchanged [OF this, of p r] unchanged assms(2)
  show ?thesis by (simp add: re_sub_def)
qed

lemma replace_error_frame:
  assumes "replace f p r w = Inl e" and "files v f = files w f"
  shows "replace f p r v = Inl e"
  using assms
  by (auto simp: replace_def read_text_def split: option.splits sum.splits if_splits)

lemma run_calls_frame:
  assumes "run_calls cs w = (w', e)" and "files v = files w"
  shows "\<exists>v' lines. run_calls cs v = (v', e) \<and> files v' = files w' \<and>
           out w' = out w @ lines \<and> out v' = out v @ lines"
  using assms
proof (induction cs arbitrary: w v)
  case Nil
  then show ?case by (auto simp: finish_def)
next
  case (Cons c cs)
  obtain f p r where c: "c = (f, p, r)" by (cases c)
  show ?case
  proof (cases "replace f p r w")
    case (Inl x)
    with Cons.prems have "replace f p r v = Inl x"
      by (intro replace_error_frame [OF Inl]) simp
    with Inl Cons.prems show ?thesis
      by (simp add: c bind_call_def)
  next
    case (Inr w1)
    from Cons.prems(2) have "files v f = files w f" by simp
    from replace_frame [OF Inr this] obtain v1 l where v1: "replace f p r v = Inr v1"
      "out w1 = out w @ [l]" "out v1 = out v @ [l]" "files v1 f = files w1 f"
      "\<forall>g. g \<noteq> f \<longrightarrow> files w1 g = files w g \<and> files v1 g = files v g"
      by blast
    with Cons.prems(2) have fs: "files v1 = files w1"
      by (intro ext) (metis)
    from Cons.prems(1) Inr have "run_calls cs w1 = (w', e)"
      by (simp add: c bind_call_def)
    from Cons.IH [OF this fs] obtain v' lines where
      "run_calls cs v1 = (v', e)" "files v' = files w'"
      "out w' = out w1 @ lines" "out v' = out v1 @ lines"
      by blast
    with v1 show ?thesis
      by (simp add: c bind_call_def)
  qed
qed

lemma replace_swap:
  assumes "f1 \<noteq> f2"
      and "replace f1 p1 r1 w = Inr wa" and "replace f2 p2 r2 wa = Inr wab"
  shows "\<exists>wb wba. replace f2 p2 r2 w = Inr wb \<and> replace f1 p1 r1 wb = Inr wba \<and>
           files wba = files wab \<and> mset (out wba) = mset (out wab)"
proof -
  from replace_files_other [OF assms(2)] assms(1) have "files w f2 = files wa f2"
    by simp
  from replace_frame [OF assms(3) this] obtain wb l2 where wb:
    "replace f2 p2 r2 w = Inr wb" "out wab = out wa @ [l2]" "out wb = out w @ [l2]"
    "files wb f2 = files wab f2"
    "\<forall>g. g \<noteq> f2 \<longrightarrow> files wab g = files wa g \<and> files wb g = files w g"
    by blast
  with assms(1) have "files wb f1 = files w f1"
    by simp
  from replace_frame [OF assms(2) this] obtain wba l1 where wba:
    "replace f1 p1 r1 wb = Inr wba" "out wa = out w @ [l1]" "out wba = out wb @ [l1]"
    "files wba f1 = files wa f1"
    "\<forall>g. g \<noteq> f1 \<longrightarrow> files wa g = files w g \<and> files wba g = files wb g"
    by blast
  have "files wba g = files wab g" for g
  proof (cases "g = f1")
    case True
    with assms(1) wb(5) wba(4) show ?thesis by simp
  next
    case False
    with wb(4,5) wba(5) show ?thesis by (cases "g = f2") simp_all
  qed
  then have "files wba = files wab" by (rule ext)
  moreover have "mset (out wba) = mset (out wab)"
    by (simp add: wb wba)
  ultimately show ?thesis
    using wb(1) wba(1) by blast
qed

section \<open>The matcher on patterns without backtracking\<close>

lemma match_here_suffix: "match_here p must s = Some r \<Longrightarrow> \<exists>m. s = m @ r"
proof (induction p must s arbitrary: r rule: match_here.induct)
  case (4 c p must x xs)
  then obtain m where "xs = m @ r"
    by (auto split: if_splits)
  then have "x # xs = (x # m) @ r" by simp
  then show ?case by blast
next
  case (6 c p must x xs)
  then obtain m where "xs = m @ r"
    by (auto split: if_splits)
  then have "x # xs = (x # m) @ r" by simp
  then show ?case by blast
next
  case (8 c p must x xs)
  show ?case
  proof (cases "accepts c x \<and> match_here (Star c # p) False xs \<noteq> None")
    case True
    with "8.prems" have "match_here (Star c # p) False xs = Some r"
      by auto
    with "8.IH"(1) True obtain m where "xs = m @ r"
      by blast
    then have "x # xs = (x # m) @ r" by simp
    then show ?thesis by blast
  next
    case False
    with "8.prems" have "match_here p must (x # xs) = Some r"
      by (auto split: if_splits)
    with "8.IH"(2,3) False show ?thesis
      by (cases "accepts c x") auto
  qed
qed (auto split: if_splits)

lemma match_One_flag: "match_here (One c # p) must s = match_here (One c # p) False s"
  by (cases s) simp_all

lemma match_One_shorter:
  "match_here (One c # p) must s = Some r \<Longrightarrow> length r < length s"
  by (cases s) (auto split: if_splits dest: match_here_length)

lemma sub_loop_One:
  "sub_loop (One c # p) t must s =
     (case match_here (One c # p) False s of
        Some r \<Rightarrow> expand t (take (length s - length r) s) @ sub_loop (One c # p) t False r
      | None \<Rightarrow> (case s of [] \<Rightarrow> [] | x # xs \<Rightarrow> x # sub_loop (One c # p) t False xs))"
proof (cases "match_here (One c # p) False s")
  case None
  then have "match_here (One c # p) must s = None"
    by (subst match_One_flag)
  with None show ?thesis
    by (subst sub_loop.simps) simp
next
  case (Some r)
  then have m: "match_here (One c # p) must s = Some r"
    by (subst match_One_flag)
  from match_One_shorter [OF m] m Some show ?thesis
    by (subst sub_loop.simps) simp
qed

lemma star_det:
  assumes "\<not> accepts c d" and "\<forall>x\<in>set ds. accepts c x"
  shows "match_here (Star c # One (Lit d) # q) False (ds @ d # s) = match_here q False s"
  using assms(2)
proof (induction ds)
  case Nil
  with assms(1) show ?case by simp
next
  case (Cons x ds)
  then have "accepts c x" and "x \<noteq> d"
    using assms(1) by auto
  with Cons show ?case
    by (simp split: option.split)
qed

lemma plus_det:
  assumes "\<not> accepts c d" and "\<forall>x\<in>set ds. accepts c x" and "ds \<noteq> []"
  shows "match_here (Plus c # One (Lit d) # q) must (ds @ d # s) = match_here q False s"
proof -
  from assms(3) obtain x xs where ds: "ds = x # xs" by (cases ds) auto
  with assms(2) have "accepts c x" and "\<forall>y\<in>set xs. accepts c y" by auto
  with star_det [OF assms(1), of xs q s] show ?thesis
    by (simp add: ds)
qed

lemma det_full_match: "det p \<Longrightarrow> full p m \<Longrightarrow> match_here p False (m @ b) = Some b"
proof (induction p arbitrary: m rule: det.induct)
  case 1
  then show ?case by simp
next
  case (2 c p)
  then show ?case by (cases m) auto
next
  case (3 c p)
  from "3.prems"(1) obtain d q where p: "p = One (Lit d) # q" and nd: "\<not> accepts c d"
    and dq: "det q"
    by (auto split: list.splits item.splits cls.splits)
  from "3.prems"(2) obtain n where n: "1 \<le> n" "n \<le> length m"
    "\<forall>x\<in>set (take n m). accepts c x" "full p (drop n m)"
    by auto
  from n(4) p obtain m2 where m2: "drop n m = d # m2" "full q m2"
    by (cases "drop n m") auto
  have m: "m = take n m @ d # m2"
    using m2(1) append_take_drop_id [of n m] by simp
  have ne: "take n m \<noteq> []" using n(1,2) by auto
  have "match_here (Plus c # One (Lit d) # q) False (take n m @ d # (m2 @ b))
          = match_here q False (m2 @ b)"
    by (rule plus_det [OF nd n(3) ne])
  also have "\<dots> = Some b"
    by (rule "3.IH" [OF p _ _ dq m2(2)]) simp_all
  finally show ?case
    using m p by (metis append_Cons append_assoc)
next
  case (4 c p)
  from "4.prems"(1) obtain d q where p: "p = One (Lit d) # q" and nd: "\<not> accepts c d"
    and dq: "det q"
    by (auto split: list.splits item.splits cls.splits)
  from "4.prems"(2) obtain n where n: "n \<le> length m"
    "\<forall>x\<in>set (take n m). accepts c x" "full p (drop n m)"
    by auto
  from n(3) p obtain m2 where m2: "drop n m = d # m2" "full q m2"
    by (cases "drop n m") auto
  have m: "m = take n m @ d # m2"
    using m2(1) append_take_drop_id [of n m] by simp
  have "match_here (Star c # One (Lit d) # q) False (take n m @ d # (m2 @ b))
          = match_here q False (m2 @ b)"
    by (rule star_det [OF nd n(2)])
  also have "\<dots> = Some b"
    by (rule "4.IH" [OF p _ _ dq m2(2)]) simp_all
  finally show ?case
    using m p by (metis append_Cons append_assoc)
next
  case (5 p)
  then show ?case by simp
qed




lemma full_StarI:
  "\<forall>x\<in>set ds. accepts c x \<Longrightarrow> full p m \<Longrightarrow> full (Star c # p) (ds @ m)"
  by (auto intro!: bexI [of _ "length ds"])

lemma full_PlusI:
  "ds \<noteq> [] \<Longrightarrow> \<forall>x\<in>set ds. accepts c x \<Longrightarrow> full p m \<Longrightarrow> full (Plus c # p) (ds @ m)"
  by (cases ds) (auto intro!: bexI [of _ "length ds"])

lemma full_lits: "full p m \<Longrightarrow> full (lits s @ p) (s @ m)"
  by (induction s) (simp_all add: lits_def)

lemma full_semver:
  assumes "d1 \<noteq> []" "\<forall>x\<in>set d1. is_digit x" "d2 \<noteq> []" "\<forall>x\<in>set d2. is_digit x"
      and "d3 \<noteq> []" "\<forall>x\<in>set d3. is_digit x" and "full p m"
  shows "full (semver @ p) (d1 @ CHR ''.'' # d2 @ CHR ''.'' # d3 @ m)"
proof -
  have 3: "full (Plus Digit # p) (d3 @ m)"
    using assms(5,6,7) by (intro full_PlusI) simp_all
  then have 2: "full (Plus Digit # One (Lit CHR ''.'') # Plus Digit # p)
                  (d2 @ CHR ''.'' # d3 @ m)"
    using assms(3,4) by (intro full_PlusI) simp_all
  then have "full (Plus Digit # One (Lit CHR ''.'') # Plus Digit # One (Lit CHR ''.'') #
                   Plus Digit # p) (d1 @ CHR ''.'' # d2 @ CHR ''.'' # d3 @ m)"
    using assms(1,2) by (intro full_PlusI) simp_all
  then show ?thesis by (simp add: semver_def)
qed

lemma full_quote: \<open>full (lits ''"'') ''"''\<close>
  by (simp add: lits_def)


lemma pat_cargo_shape:
  "pat_cargo = One (Lit CHR ''v'') # tl pat_cargo"
  "\<forall>it\<in>set (tl pat_cargo). it \<noteq> AtEnd \<and> \<not> takes it CHR ''v''"
  "det pat_cargo"
  by (simp_all add: pat_cargo_def lits_def semver_def is_digit_def is_space_def)

section \<open>Running a rule on its own output\<close>

lemma states_self: "q \<in> set (states q)"
  by (cases q rule: states.cases) simp_all

lemma sim_Nil_left: "sim c0 c1 [] ys \<Longrightarrow> ys = []"
  by (erule sim.cases) simp_all

lemma sim_Cons_left:
  assumes "sim c0 c1 (x # xs) ys"
  obtains (cons) ys' where "ys = x # ys'" "sim c0 c1 xs ys'"
        | (lead) xs' ys' where "x = c0" "xs = c1 # xs'" "ys = c0 # c1 # ys'"
  using assms by (cases rule: sim.cases) auto

text \<open>
  If no state of the pattern other than its end lets a match go through the two
  characters, the engine cannot tell two such texts apart.
\<close>

lemma sim_match:
  assumes "\<forall>q'\<in>set (states q). q' = [] \<or> (\<forall>must t. match_here q' must (c0 # c1 # t) = None)"
      and "sim c0 c1 xs ys"
  shows "rel_option (sim c0 c1) (match_here q must xs) (match_here q must ys)"
  using assms
proof (induction q must xs arbitrary: ys rule: match_here.induct)
  case (1 must s)
  then show ?case by simp
next
  case (2 p must s)
  have blk: "\<forall>must t. match_here (AtEnd # p) must (c0 # c1 # t) = None"
    using "2.prems"(1) by simp
  show ?case
  proof (cases s)
    case Nil
    with "2.prems"(2) have "ys = []" by (auto dest: sim_Nil_left)
    with Nil "2.IH" "2.prems" show ?thesis by simp
  next
    case (Cons x xs)
    from "2.prems"(2) [unfolded Cons] show ?thesis
    proof (cases rule: sim_Cons_left)
      case (cons ys')
      show ?thesis
      proof (cases "xs = []")
        case True
        with cons have "ys' = []" by (auto dest: sim_Nil_left)
        with True cons Cons "2.IH" "2.prems" show ?thesis by auto
      next
        case False
        with cons have "ys' \<noteq> []" by (auto elim: sim.cases)
        with False cons Cons show ?thesis by simp
      qed
    next
      case (lead xs' ys')
      with Cons show ?thesis by simp
    qed
  qed
next
  case (3 c p must)
  then show ?case by (auto dest: sim_Nil_left)
next
  case (4 c p must x xs)
  have blk: "\<forall>must t. match_here (One c # p) must (c0 # c1 # t) = None"
    using "4.prems"(1) by simp
  from "4.prems"(2) show ?case
  proof (cases rule: sim_Cons_left)
    case (cons ys')
    with "4.IH" "4.prems"(1) show ?thesis by simp
  next
    case (lead xs' ys')
    with blk show ?thesis by (simp del: match_here.simps)
  qed
next
  case (5 c p must)
  then show ?case by (auto dest: sim_Nil_left)
next
  case (6 c p must x xs)
  have blk: "\<forall>must t. match_here (Plus c # p) must (c0 # c1 # t) = None"
    using "6.prems"(1) by simp
  from "6.prems"(2) show ?case
  proof (cases rule: sim_Cons_left)
    case (cons ys')
    with "6.IH" "6.prems"(1) show ?thesis by simp
  next
    case (lead xs' ys')
    with blk show ?thesis by (simp del: match_here.simps)
  qed
next
  case (7 c p must)
  from "7.prems"(2) have "ys = []" by (auto dest: sim_Nil_left)
  with "7.IH" [of "[]"] "7.prems"(1) show ?case by (simp add: sim_nil)
next
  case (8 c p must x xs)
  have blk: "\<forall>must t. match_here (Star c # p) must (c0 # c1 # t) = None"
    using "8.prems"(1) by simp
  have sub: "\<forall>q'\<in>set (states p).
               q' = [] \<or> (\<forall>must t. match_here q' must (c0 # c1 # t) = None)"
    using "8.prems"(1) by simp
  from "8.prems"(2) show ?case
  proof (cases rule: sim_Cons_left)
    case (cons ys')
    show ?thesis
    proof (cases "accepts c x")
      case True
      from "8.IH"(1) [OF True "8.prems"(1) cons(2)]
      have inner: "rel_option (sim c0 c1) (match_here (Star c # p) False xs)
                     (match_here (Star c # p) False ys')" .
      show ?thesis
      proof (cases "match_here (Star c # p) False xs")
        case None
        with inner have n': "match_here (Star c # p) False ys' = None"
          by (cases "match_here (Star c # p) False ys'") simp_all
        from "8.IH"(2) [OF True None sub "8.prems"(2)]
        have "rel_option (sim c0 c1) (match_here p must (x # xs)) (match_here p must ys)" .
        with True None n' cons(1) show ?thesis by simp
      next
        case (Some r)
        with inner obtain r' where "match_here (Star c # p) False ys' = Some r'"
          and "sim c0 c1 r r'"
          by (cases "match_here (Star c # p) False ys'") simp_all
        with True Some cons(1) show ?thesis by simp
      qed
    next
      case False
      from "8.IH"(3) [OF False sub "8.prems"(2)]
      have "rel_option (sim c0 c1) (match_here p must (x # xs)) (match_here p must ys)" .
      with False cons(1) show ?thesis by simp
    qed
  next
    case (lead xs' ys')
    with blk show ?thesis by (simp del: match_here.simps)
  qed
qed


lemma match_two_lits:
  "match_here (One (Lit c0) # One (Lit c1) # p) must s = Some r \<Longrightarrow> \<exists>s'. s = c0 # c1 # s'"
  by (cases s; cases "tl s") (auto split: if_splits)

lemma sub_loop_hit:
  assumes "p = One (Lit c0) # p1" and "det p" and "full p R"
  shows "sub_loop p (map Chr R) False (R @ z) = R @ sub_loop p (map Chr R) False z"
proof -
  have "match_here p False (R @ z) = Some z"
    by (rule det_full_match [OF assms(2,3)])
  then show ?thesis
    unfolding assms(1) by (subst sub_loop_One) (simp add: expand_plain)
qed

lemma sim_sub_loop:
  assumes p: "p = One (Lit c0) # One (Lit c1) # p2" and R: "R = c0 # c1 # R'"
  shows "sim c0 c1 s (sub_loop p (map Chr R) False s)"
proof (induction "length s" arbitrary: s rule: less_induct)
  case less
  show ?case
  proof (cases "match_here p False s")
    case None
    show ?thesis
    proof (cases s)
      case Nil
      then show ?thesis
        unfolding p by (subst sub_loop_One) (simp add: sim_nil)
    next
      case (Cons x xs)
      have "sim c0 c1 xs (sub_loop p (map Chr R) False xs)"
        by (rule less) (simp add: Cons)
      then have "sim c0 c1 (x # xs) (x # sub_loop p (map Chr R) False xs)"
        by (rule sim_cons)
      moreover have "sub_loop p (map Chr R) False s = x # sub_loop p (map Chr R) False xs"
        using None unfolding p Cons by (subst sub_loop_One) simp
      ultimately show ?thesis by (simp add: Cons)
    qed
  next
    case (Some r)
    then obtain s' where s: "s = c0 # c1 # s'"
      unfolding p by (auto dest: match_two_lits)
    have "sub_loop p (map Chr R) False s = R @ sub_loop p (map Chr R) False r"
      using Some unfolding p by (subst sub_loop_One) (simp add: expand_plain)
    then show ?thesis
      unfolding s R by (simp add: sim_lead)
  qed
qed

lemma sub_loop_idem:
  assumes p: "p = One (Lit c0) # One (Lit c1) # p2"
      and blk: "\<forall>q\<in>set (states (One (Lit c1) # p2)).
                  q = [] \<or> (\<forall>must t. match_here q must (c0 # c1 # t) = None)"
      and R: "R = c0 # c1 # R'" and d: "det p" and f: "full p R"
  shows "sub_loop p (map Chr R) False (sub_loop p (map Chr R) False s) =
           sub_loop p (map Chr R) False s"
proof (induction "length s" arbitrary: s rule: less_induct)
  case less
  let ?F = "sub_loop p (map Chr R) False"
  show ?case
  proof (cases "match_here p False s")
    case None
    show ?thesis
    proof (cases s)
      case Nil
      have "?F [] = []"
        unfolding p by (subst sub_loop_One) simp
      with Nil show ?thesis by simp
    next
      case (Cons x xs)
      have Fs: "?F s = x # ?F xs"
        using None unfolding p Cons by (subst sub_loop_One) simp
      have ih: "?F (?F xs) = ?F xs"
        by (rule less) (simp add: Cons)
      have "match_here p False (x # ?F xs) = None"
      proof (cases "x = c0")
        case False
        then show ?thesis by (simp add: p)
      next
        case True
        with None have n: "match_here (One (Lit c1) # p2) False xs = None"
          by (simp add: p Cons)
        have "sim c0 c1 xs (?F xs)"
          by (rule sim_sub_loop [OF p R])
        from sim_match [OF blk this, of False] n
        have "match_here (One (Lit c1) # p2) False (?F xs) = None"
          by (cases "match_here (One (Lit c1) # p2) False (?F xs)") simp_all
        with True show ?thesis by (simp add: p)
      qed
      then have "?F (x # ?F xs) = x # ?F (?F xs)"
        unfolding p by (subst sub_loop_One) simp
      with Fs ih show ?thesis by simp
    qed
  next
    case (Some r)
    have Fs: "?F s = R @ ?F r"
      using Some unfolding p by (subst sub_loop_One) (simp add: expand_plain)
    from Some have "length r < length s"
      unfolding p by (rule match_One_shorter)
    then have ih: "?F (?F r) = ?F r"
      by (rule less)
    have "?F (R @ ?F r) = R @ ?F (?F r)"
      by (rule sub_loop_hit [OF p d f])
    with Fs ih show ?thesis by simp
  qed
qed


section \<open>Running one rule on the output of another\<close>

lemma matched_chars:
  "match_here q must s = Some r \<Longrightarrow> \<exists>m. s = m @ r \<and> (\<forall>x\<in>set m. \<exists>it\<in>set q. takes it x)"
proof (induction q must s arbitrary: r rule: match_here.induct)
  case (1 must s)
  then show ?case by (auto split: if_splits)
next
  case (2 p must s)
  then obtain m where "s = m @ r" "\<forall>x\<in>set m. \<exists>it\<in>set p. takes it x"
    by (auto split: if_splits)
  then show ?case by auto
next
  case (3 c p must)
  then show ?case by simp
next
  case (4 c p must x xs)
  then obtain m where "xs = m @ r" "\<forall>y\<in>set m. \<exists>it\<in>set p. takes it y" and "accepts c x"
    by (auto split: if_splits)
  then have "x # xs = (x # m) @ r \<and> (\<forall>y\<in>set (x # m). \<exists>it\<in>set (One c # p). takes it y)"
    by auto
  then show ?case by blast
next
  case (5 c p must)
  then show ?case by simp
next
  case (6 c p must x xs)
  then obtain m where "xs = m @ r" "\<forall>y\<in>set m. \<exists>it\<in>set (Star c # p). takes it y"
    and "accepts c x"
    by (auto split: if_splits)
  then have "x # xs = (x # m) @ r \<and> (\<forall>y\<in>set (x # m). \<exists>it\<in>set (Plus c # p). takes it y)"
    by auto
  then show ?case by blast
next
  case (7 c p must)
  then obtain m where "[] = m @ r" "\<forall>y\<in>set m. \<exists>it\<in>set p. takes it y"
    by auto
  then show ?case by auto
next
  case (8 c p must x xs)
  show ?case
  proof (cases "accepts c x \<and> match_here (Star c # p) False xs \<noteq> None")
    case True
    with "8.prems" have "match_here (Star c # p) False xs = Some r"
      by auto
    with "8.IH"(1) True obtain m where "xs = m @ r"
      "\<forall>y\<in>set m. \<exists>it\<in>set (Star c # p). takes it y"
      by blast
    with True have "x # xs = (x # m) @ r \<and>
        (\<forall>y\<in>set (x # m). \<exists>it\<in>set (Star c # p). takes it y)"
      by auto
    then show ?thesis by blast
  next
    case False
    with "8.prems" have "match_here p must (x # xs) = Some r"
      by (auto split: if_splits)
    with "8.IH"(2,3) False obtain m where "x # xs = m @ r"
      "\<forall>y\<in>set m. \<exists>it\<in>set p. takes it y"
      by (cases "accepts c x") auto
    then have "x # xs = m @ r \<and> (\<forall>y\<in>set m. \<exists>it\<in>set (Star c # p). takes it y)"
      by auto
    then show ?thesis by blast
  qed
qed

lemma skip_other:
  "x \<noteq> c0 \<Longrightarrow>
   sub_loop (One (Lit c0) # p1) t False (x # z) = x # sub_loop (One (Lit c0) # p1) t False z"
  by (subst sub_loop_One) simp

lemma skip_pair:
  "y \<noteq> c1 \<Longrightarrow>
   sub_loop (One (Lit c0) # One (Lit c1) # p2) t False (x # y # z) =
     x # sub_loop (One (Lit c0) # One (Lit c1) # p2) t False (y # z)"
  by (subst sub_loop_One) simp

lemma skip_set:
  "c0 \<notin> set m \<Longrightarrow>
   sub_loop (One (Lit c0) # p1) t False (m @ z) = m @ sub_loop (One (Lit c0) # p1) t False z"
proof (induction m)
  case Nil
  show ?case by simp
next
  case (Cons x m)
  then have "x \<noteq> c0" and "c0 \<notin> set m" by auto
  with Cons.IH show ?case by (simp add: skip_other)
qed

lemma sub_loop_Nil: "sub_loop (One c # p) t must [] = []"
  by (subst sub_loop_One) simp

lemma sub_loop_cross:
  assumes pA: "pA = One (Lit a0) # pA1" and dA: "det pA" and fA: "full pA RA"
      and pB: "pB = One (Lit b0) # One (Lit b1) # pB2" and RB: "RB = b0 # b1 # RB'"
      and blk: "\<forall>q\<in>set (states pA1).
                  q = [] \<or> (\<forall>must t. match_here q must (b0 # b1 # t) = None)"
      and nb: "\<forall>it\<in>set pB. \<not> takes it a0" and nR: "a0 \<notin> set RB"
      and skipB: "\<And>z. sub_loop pB (map Chr RB) False (RA @ z) =
                        RA @ sub_loop pB (map Chr RB) False z"
  shows "sub_loop pA (map Chr RA) False u = u \<Longrightarrow>
         sub_loop pA (map Chr RA) False (sub_loop pB (map Chr RB) False u) =
           sub_loop pB (map Chr RB) False u"
proof (induction "length u" arbitrary: u rule: less_induct)
  case less
  let ?A = "sub_loop pA (map Chr RA) False"
  let ?B = "sub_loop pB (map Chr RB) False"
  note fixed = less.prems
  show ?case
  proof (cases "match_here pA False u")
    case (Some rA)
    have "?A u = RA @ ?A rA"
      using Some unfolding pA by (subst sub_loop_One) (simp add: expand_plain)
    with fixed have u: "u = RA @ ?A rA" by simp
    have "match_here pA False (RA @ ?A rA) = Some (?A rA)"
      by (rule det_full_match [OF dA fA])
    with u Some have rA: "?A rA = rA" by simp
    from Some have len: "length rA < length u"
      unfolding pA by (rule match_One_shorter)
    have "?B u = RA @ ?B rA"
      using u rA skipB [of rA] by simp
    moreover have "?A (RA @ ?B rA) = RA @ ?A (?B rA)"
      by (rule sub_loop_hit [OF pA dA fA])
    moreover have "?A (?B rA) = ?B rA"
      by (rule less.hyps [OF len rA])
    ultimately show ?thesis by simp
  next
    case None
    show ?thesis
    proof (cases u)
      case Nil
      then show ?thesis by (simp add: pA pB sub_loop_Nil)
    next
      case (Cons x xs)
      have "?A u = x # ?A xs"
        using None unfolding pA Cons by (subst sub_loop_One) simp
      with fixed Cons have xs: "?A xs = xs" by simp
      show ?thesis
      proof (cases "match_here pB False u")
        case (Some rB)
        from matched_chars [OF Some] obtain mB where mB: "u = mB @ rB"
          "\<forall>y\<in>set mB. \<exists>it\<in>set pB. takes it y"
          by blast
        with nb have a0: "a0 \<notin> set mB" by auto
        have "?A (mB @ rB) = mB @ ?A rB"
          unfolding pA by (rule skip_set [OF a0])
        with fixed mB(1) have rB: "?A rB = rB" by simp
        from Some have len: "length rB < length u"
          unfolding pB by (rule match_One_shorter)
        have "?B u = RB @ ?B rB"
          using Some unfolding pB by (subst sub_loop_One) (simp add: expand_plain)
        moreover have "?A (RB @ ?B rB) = RB @ ?A (?B rB)"
          unfolding pA by (rule skip_set [OF nR])
        moreover have "?A (?B rB) = ?B rB"
          by (rule less.hyps [OF len rB])
        ultimately show ?thesis by simp
      next
        case nB: None
        have Bu: "?B u = x # ?B xs"
          using nB unfolding pB Cons by (subst sub_loop_One) simp
        have ih: "?A (?B xs) = ?B xs"
          by (rule less.hyps [OF _ xs]) (simp add: Cons)
        have "match_here pA False (x # ?B xs) = None"
        proof (cases "x = a0")
          case False
          then show ?thesis by (simp add: pA)
        next
          case True
          with None have n: "match_here pA1 False xs = None"
            by (simp add: pA Cons)
          have "sim b0 b1 xs (?B xs)"
            by (rule sim_sub_loop [OF pB RB])
          from sim_match [OF blk this, of False] n
          have "match_here pA1 False (?B xs) = None"
            by (cases "match_here pA1 False (?B xs)") simp_all
          with True show ?thesis by (simp add: pA)
        qed
        then have "?A (x # ?B xs) = x # ?A (?B xs)"
          unfolding pA by (subst sub_loop_One) simp
        with Bu ih show ?thesis by simp
      qed
    qed
  qed
qed

section \<open>Dotted values\<close>

lemma full_chars: "full p m \<Longrightarrow> \<forall>x\<in>set m. \<exists>it\<in>set p. takes it x"
proof (induction p arbitrary: m)
  case Nil
  then show ?case by simp
next
  case (Cons it p)
  show ?case
  proof (cases it)
    case (One c)
    with Cons.prems obtain x xs where "m = x # xs" "accepts c x" "full p xs"
      by (cases m) auto
    with Cons.IH [of xs] One show ?thesis by auto
  next
    case (Plus c)
    with Cons.prems obtain n where n: "\<forall>x\<in>set (take n m). accepts c x" "full p (drop n m)"
      by auto
    have "set m = set (take n m) \<union> set (drop n m)"
      by (metis append_take_drop_id set_append)
    with n Cons.IH [of "drop n m"] Plus show ?thesis by auto
  next
    case (Star c)
    with Cons.prems obtain n where n: "\<forall>x\<in>set (take n m). accepts c x" "full p (drop n m)"
      by auto
    have "set m = set (take n m) \<union> set (drop n m)"
      by (metis append_take_drop_id set_append)
    with n Cons.IH [of "drop n m"] Star show ?thesis by auto
  next
    case AtEnd
    with Cons.prems Cons.IH [of m] show ?thesis by auto
  qed
qed

lemma dotted_chars:
  assumes "dotted v"
  shows "\<forall>x\<in>set v. is_digit x \<or> x = CHR ''.''"
proof -
  from assms have "\<forall>x\<in>set v. \<exists>it\<in>set semver. takes it x"
    unfolding dotted_def by (rule full_chars)
  then show ?thesis
    by (auto simp: semver_def)
qed

lemma full_append:
  "AtEnd \<notin> set p1 \<Longrightarrow> full p1 m1 \<Longrightarrow> full p2 m2 \<Longrightarrow> full (p1 @ p2) (m1 @ m2)"
proof (induction p1 arbitrary: m1)
  case Nil
  then show ?case by simp
next
  case (Cons it p1)
  show ?case
  proof (cases it)
    case (One c)
    with Cons.prems obtain x xs where "m1 = x # xs" "accepts c x" "full p1 xs"
      by (cases m1) auto
    with Cons.IH [of xs] Cons.prems One show ?thesis by simp
  next
    case (Plus c)
    with Cons.prems obtain n where n: "1 \<le> n" "n \<le> length m1"
      "\<forall>x\<in>set (take n m1). accepts c x" "full p1 (drop n m1)"
      by auto
    from Cons.IH [OF _ n(4) Cons.prems(3)] Cons.prems(1)
    have "full (p1 @ p2) (drop n m1 @ m2)" by simp
    with n have "n \<in> {1..length (m1 @ m2)} \<and>
        (\<forall>x\<in>set (take n (m1 @ m2)). accepts c x) \<and> full (p1 @ p2) (drop n (m1 @ m2))"
      by simp
    then show ?thesis unfolding Plus by (simp only: append_Cons full.simps) blast
  next
    case (Star c)
    with Cons.prems obtain n where n: "n \<le> length m1"
      "\<forall>x\<in>set (take n m1). accepts c x" "full p1 (drop n m1)"
      by auto
    from Cons.IH [OF _ n(3) Cons.prems(3)] Cons.prems(1)
    have "full (p1 @ p2) (drop n m1 @ m2)" by simp
    with n have "n \<in> {0..length (m1 @ m2)} \<and>
        (\<forall>x\<in>set (take n (m1 @ m2)). accepts c x) \<and> full (p1 @ p2) (drop n (m1 @ m2))"
      by simp
    then show ?thesis unfolding Star by (simp only: append_Cons full.simps) blast
  next
    case AtEnd
    with Cons.prems show ?thesis by simp
  qed
qed

lemma full_dotted: "dotted v \<Longrightarrow> full p m \<Longrightarrow> full (semver @ p) (v @ m)"
  unfolding dotted_def by (rule full_append) (simp_all add: semver_def)

section \<open>The four patterns without an anchor\<close>

lemma pat_label_shape:
  "pat_label = One (Lit CHR ''L'') # One (Lit CHR ''A'') # tl (tl pat_label)"
  "det pat_label"
  "\<forall>q\<in>set (states (One (Lit CHR ''A'') # tl (tl pat_label))).
     q = [] \<or> (\<forall>must t. match_here q must (CHR ''L'' # CHR ''A'' # t) = None)"
  by (simp_all add: pat_label_def lits_def semver_def is_digit_def)

lemma pat_cargo_lead:
  "pat_cargo = One (Lit CHR ''v'') # One (Lit CHR ''e'') # tl (tl pat_cargo)"
  "\<forall>q\<in>set (states (One (Lit CHR ''e'') # tl (tl pat_cargo))).
     q = [] \<or> (\<forall>must t. match_here q must (CHR ''v'' # CHR ''e'' # t) = None)"
  by (simp_all add: pat_cargo_def lits_def semver_def is_digit_def is_space_def)

lemma pat_sh_gen_shape:
  "pat_sh_gen = One (Lit CHR ''O'') # One (Lit CHR ''P'') # tl (tl pat_sh_gen)"
  "det pat_sh_gen"
  "\<forall>q\<in>set (states (One (Lit CHR ''P'') # tl (tl pat_sh_gen))).
     q = [] \<or> (\<forall>must t. match_here q must (CHR ''O'' # CHR ''P'' # t) = None)"
  "\<forall>q\<in>set (states (One (Lit CHR ''P'') # tl (tl pat_sh_gen))).
     q = [] \<or> (\<forall>must t. match_here q must (CHR ''S'' # CHR ''P'' # t) = None)"
  by (simp_all add: pat_sh_gen_def lits_def semver_def is_digit_def)

lemma pat_sh_spec_shape:
  "pat_sh_spec = One (Lit CHR ''S'') # One (Lit CHR ''P'') # tl (tl pat_sh_spec)"
  "det pat_sh_spec"
  "\<forall>q\<in>set (states (One (Lit CHR ''P'') # tl (tl pat_sh_spec))).
     q = [] \<or> (\<forall>must t. match_here q must (CHR ''S'' # CHR ''P'' # t) = None)"
  "\<forall>it\<in>set pat_sh_spec. \<not> takes it CHR ''O''"
  by (simp_all add: pat_sh_spec_def lits_def semver_def is_digit_def)


lemma dotted_no_bslash: "dotted v \<Longrightarrow> bslash \<notin> set v"
  by (auto dest!: dotted_chars simp: is_digit_def bslash_def)

lemma dotted_no_letter: "dotted v \<Longrightarrow> CHR ''O'' \<notin> set v \<and> CHR ''S'' \<notin> set v"
  by (auto dest!: dotted_chars simp: is_digit_def)

lemma full_label: "dotted v \<Longrightarrow> full pat_label (repl_label v)"
  unfolding pat_label_def repl_label_def
  by (intro full_lits full_dotted full_quote)

lemma full_sh_gen: "dotted v \<Longrightarrow> full pat_sh_gen (repl_sh_gen v)"
  unfolding pat_sh_gen_def repl_sh_gen_def
  by (intro full_lits full_dotted full_quote)

lemma full_sh_spec: "dotted v \<Longrightarrow> full pat_sh_spec (repl_sh_spec v)"
  unfolding pat_sh_spec_def repl_sh_spec_def
  by (intro full_lits full_dotted full_quote)

lemma full_cargo_repl:
  assumes "dotted v"
  shows "full pat_cargo (repl_cargo v)"
proof -
  have 1: \<open>full (semver @ lits ''"'') (v @ ''"'')\<close>
    by (rule full_dotted [OF assms full_quote])
  have 2: \<open>full (Star Space # lits ''"'' @ semver @ lits ''"'') ('' '' @ ''"'' @ v @ ''"'')\<close>
    by (intro full_StarI full_lits 1) (simp add: is_space_def)
  have 3: \<open>full (Star Space # lits ''='' @ Star Space # lits ''"'' @ semver @ lits ''"'')
             ('' '' @ ''='' @ '' '' @ ''"'' @ v @ ''"'')\<close>
    by (intro full_StarI full_lits 2) (simp add: is_space_def)
  have \<open>full (lits ''version'' @ Star Space # lits ''='' @ Star Space # lits ''"'' @
              semver @ lits ''"'')
          (''version'' @ '' '' @ ''='' @ '' '' @ ''"'' @ v @ ''"'')\<close>
    by (rule full_lits [OF 3])
  then show ?thesis by (simp add: pat_cargo_def repl_cargo_def)
qed

lemma label_idem:
  assumes "dotted v"
  shows "sub_loop pat_label (map Chr (repl_label v)) False
           (sub_loop pat_label (map Chr (repl_label v)) False x) =
         sub_loop pat_label (map Chr (repl_label v)) False x"
  by (rule sub_loop_idem [OF pat_label_shape(1,3) _ pat_label_shape(2) full_label [OF assms]])
     (simp add: repl_label_def)

lemma cargo_idem:
  assumes "dotted v"
  shows "sub_loop pat_cargo (map Chr (repl_cargo v)) False
           (sub_loop pat_cargo (map Chr (repl_cargo v)) False x) =
         sub_loop pat_cargo (map Chr (repl_cargo v)) False x"
  by (rule sub_loop_idem [OF pat_cargo_lead _ pat_cargo_shape(3) full_cargo_repl [OF assms]])
     (simp add: repl_cargo_def)

lemma sh_gen_idem:
  assumes "dotted v"
  shows "sub_loop pat_sh_gen (map Chr (repl_sh_gen v)) False
           (sub_loop pat_sh_gen (map Chr (repl_sh_gen v)) False x) =
         sub_loop pat_sh_gen (map Chr (repl_sh_gen v)) False x"
  by (rule sub_loop_idem [OF pat_sh_gen_shape(1,3) _ pat_sh_gen_shape(2) full_sh_gen [OF assms]])
     (simp add: repl_sh_gen_def)

lemma sh_spec_idem:
  assumes "dotted v"
  shows "sub_loop pat_sh_spec (map Chr (repl_sh_spec v)) False
           (sub_loop pat_sh_spec (map Chr (repl_sh_spec v)) False x) =
         sub_loop pat_sh_spec (map Chr (repl_sh_spec v)) False x"
  by (rule sub_loop_idem [OF pat_sh_spec_shape(1,3) _ pat_sh_spec_shape(2)
        full_sh_spec [OF assms]])
     (simp add: repl_sh_spec_def)

text \<open>
  The rule for the specification path passes over the text that the rule for the
  generator version puts in: its only S is followed by I.
\<close>

lemma sh_spec_skips_gen:
  assumes "dotted g"
  shows "sub_loop pat_sh_spec t False (repl_sh_gen g @ z) =
           repl_sh_gen g @ sub_loop pat_sh_spec t False z"
proof -
  define p2 where "p2 = tl (tl pat_sh_spec)"
  have p: "pat_sh_spec = One (Lit CHR ''S'') # One (Lit CHR ''P'') # p2"
    unfolding p2_def by (rule pat_sh_spec_shape(1))
  from assms have S: "CHR ''S'' \<notin> set g"
    by (simp add: dotted_no_letter)
  have tail: "sub_loop (One (Lit CHR ''S'') # One (Lit CHR ''P'') # p2) t False
                (g @ CHR 0x22 # z) =
              g @ CHR 0x22 # sub_loop (One (Lit CHR ''S'') # One (Lit CHR ''P'') # p2) t False z"
    using skip_set [OF S, of "One (Lit CHR ''P'') # p2" t "CHR 0x22 # z"]
    by (simp add: skip_other)
  show ?thesis
    unfolding p repl_sh_gen_def
    by (simp add: skip_other skip_pair tail)
qed

lemma sh_gen_after_spec:
  assumes "dotted g" and "dotted s"
      and "sub_loop pat_sh_gen (map Chr (repl_sh_gen g)) False u = u"
  shows "sub_loop pat_sh_gen (map Chr (repl_sh_gen g)) False
           (sub_loop pat_sh_spec (map Chr (repl_sh_spec s)) False u) =
         sub_loop pat_sh_spec (map Chr (repl_sh_spec s)) False u"
proof (rule sub_loop_cross [OF pat_sh_gen_shape(1,2) full_sh_gen [OF assms(1)]
        pat_sh_spec_shape(1) _ pat_sh_gen_shape(4) pat_sh_spec_shape(4) _ _ assms(3)])
  show "repl_sh_spec s = CHR ''S'' # CHR ''P'' # tl (tl (repl_sh_spec s))"
    by (simp add: repl_sh_spec_def)
  show "CHR ''O'' \<notin> set (repl_sh_spec s)"
    using dotted_no_letter [OF assms(2)] by (simp add: repl_sh_spec_def)
  show "sub_loop pat_sh_spec (map Chr (repl_sh_spec s)) False (repl_sh_gen g @ z) =
          repl_sh_gen g @ sub_loop pat_sh_spec (map Chr (repl_sh_spec s)) False z" for z
    by (rule sh_spec_skips_gen [OF assms(1)])
qed

section \<open>The loop as a single pass\<close>

lemma sub_loop_single_pass: "single_pass p t e s (sub_loop p t e s)"
proof (induction p t e s rule: sub_loop.induct)
  case (1 p t must s)
  show ?case
  proof (cases "match_here p must s")
    case None
    show ?thesis
    proof (cases s)
      case Nil
      with None show ?thesis
        by (subst sub_loop.simps) (simp add: sp_end)
    next
      case (Cons x xs)
      from "1.IH"(1) [OF None Cons] have "single_pass p t False xs (sub_loop p t False xs)" .
      with None Cons have "single_pass p t must (x # xs) (x # sub_loop p t False xs)"
        by (intro sp_copy) simp_all
      with None Cons show ?thesis
        by (subst sub_loop.simps) simp
    qed
  next
    case (Some r)
    from match_here_suffix [OF Some] obtain m where m: "s = m @ r" by blast
    show ?thesis
    proof (cases "length r < length s")
      case True
      with m have ne: "m \<noteq> []" by auto
      from "1.IH"(2) [OF Some True]
      have "single_pass p t False r (sub_loop p t False r)" .
      with Some ne have "single_pass p t must (m @ r) (expand t m @ sub_loop p t False r)"
        unfolding m by (intro sp_match)
      moreover have "sub_loop p t must s = expand t m @ sub_loop p t False r"
        using Some True by (subst sub_loop.simps) (simp add: m)
      ultimately show ?thesis by (simp add: m)
    next
      case False
      with m have r: "r = s" by simp
      from match_here_length [OF Some] False have nm: "\<not> must" by auto
      from "1.IH"(3) [OF Some False]
      have "single_pass p t True s (sub_loop p t True s)" .
      with Some r nm have "single_pass p t False s (expand t [] @ sub_loop p t True s)"
        by (intro sp_empty) simp_all
      moreover have "sub_loop p t must s = expand t [] @ sub_loop p t True s"
        using Some False by (subst sub_loop.simps) simp
      ultimately show ?thesis using nm by simp
    qed
  qed
qed

lemma single_pass_unique: "single_pass p t e s ys \<Longrightarrow> ys = sub_loop p t e s"
proof (induction rule: single_pass.induct)
  case (sp_end e)
  then show ?case by (subst sub_loop.simps) simp
next
  case (sp_copy e x xs ys)
  then show ?case by (subst sub_loop.simps) simp
next
  case (sp_match e m r ys)
  then show ?case by (subst sub_loop.simps) simp
next
  case (sp_empty s ys)
  then show ?case by (subst sub_loop.simps) simp
qed

lemma expand_set: "set (expand (map Chr R) m) \<subseteq> set R"
  by (simp add: expand_plain)

lemma sub_loop_set: "set (sub_loop p (map Chr R) e s) \<subseteq> set s \<union> set R"
proof (induction p "map Chr R" e s rule: sub_loop.induct)
  case (1 p must s)
  show ?case
  proof (cases "match_here p must s")
    case None
    show ?thesis
    proof (cases s)
      case Nil
      with None show ?thesis by (subst sub_loop.simps) simp
    next
      case (Cons x xs)
      from "1.hyps"(1) [OF None Cons] None Cons show ?thesis
        by (subst sub_loop.simps) auto
    qed
  next
    case (Some r)
    from match_here_suffix [OF Some] obtain m where m: "s = m @ r" by blast
    show ?thesis
    proof (cases "length r < length s")
      case True
      from "1.hyps"(2) [OF Some True] Some True m show ?thesis
        by (subst sub_loop.simps) (auto simp: expand_plain)
    next
      case False
      from "1.hyps"(3) [OF Some False] Some False show ?thesis
        by (subst sub_loop.simps) (auto simp: expand_plain)
    qed
  qed
qed

subsection \<open>Line ends\<close>

lemma universal_newlines_free: "CHR 0x0D \<notin> set (universal_newlines s)"
  by (induction s rule: universal_newlines.induct) auto

lemma universal_newlines_id: "CHR 0x0D \<notin> set s \<Longrightarrow> universal_newlines s = s"
  by (induction s rule: universal_newlines.induct) auto

lemma read_text_free: "read_text f w = Inr x \<Longrightarrow> CHR 0x0D \<notin> set x"
  by (auto dest!: read_text_InrD simp: universal_newlines_free)

section \<open>Two runs in a row\<close>

lemma replace_reads:
  assumes "read_text f w = Inr x" and "parse_template r = Some (map Chr R)"
      and "CHR 0x0D \<notin> set R"
  obtains w' where "replace f p r w = Inr w'"
    "read_text f w' = Inr (sub_loop p (map Chr R) False x)"
    "\<forall>g. g \<noteq> f \<longrightarrow> read_text g w' = read_text g w"
proof (cases "sub_loop p (map Chr R) False x = x")
  case True
  let ?w = "\<lparr>files = files w, out = out w @ [''No changes needed in '' @ f],
             writes = writes w\<rparr>"
  have 1: "replace f p r w = Inr ?w"
    using True replace_unchanged [OF assms(1), of p r] assms(2) by (simp add: re_sub_def)
  have 2: "read_text g ?w = read_text g w" for g
    by (simp add: read_text_def)
  have 3: "read_text f ?w = Inr (sub_loop p (map Chr R) False x)"
    unfolding True 2 by (rule assms(1))
  have 4: "\<forall>g. g \<noteq> f \<longrightarrow> read_text g ?w = read_text g w"
    unfolding 2 by simp
  show thesis
    by (rule that [OF 1 3 4])
next
  case False
  let ?n = "sub_loop p (map Chr R) False x"
  let ?w = "\<lparr>files = (files w)(f \<mapsto> ?n), out = out w @ [''Updated '' @ f],
             writes = writes w @ [(f, ?n)]\<rparr>"
  have 1: "replace f p r w = Inr ?w"
    using False replace_changed [OF assms(1), of p r ?n] assms(2) by (simp add: re_sub_def)
  have "CHR 0x0D \<notin> set ?n"
    using sub_loop_set [of p R False x] read_text_free [OF assms(1)] assms(3) by auto
  then have "universal_newlines ?n = ?n"
    by (rule universal_newlines_id)
  then have 2: "read_text f ?w = Inr ?n"
    by (simp add: read_text_def)
  have 3: "\<forall>g. g \<noteq> f \<longrightarrow> read_text g ?w = read_text g w"
    by (simp add: read_text_def)
  show thesis
    by (rule that [OF 1 2 3])
qed

lemma bind_call_step:
  "replace f p r w = Inr w' \<Longrightarrow> bind_call (replace f p r) k w = k w'"
  by (simp add: bind_call_def)

lemma run_calls_stable:
  assumes "\<forall>c\<in>set cs.
             case (read_text (fst c) w, parse_template (snd (snd c))) of
               (Inr x, Some t) \<Rightarrow> sub_loop (fst (snd c)) t False x = x
             | _ \<Rightarrow> False"
  shows "run_calls cs w =
           (w\<lparr>out := out w @ map (\<lambda>c. ''No changes needed in '' @ fst c) cs\<rparr>, None)"
  using assms
proof (induction cs arbitrary: w)
  case Nil
  show ?case by (simp add: finish_def)
next
  case (Cons c cs)
  obtain f p r where c: "c = (f, p, r)" by (cases c)
  from Cons.prems obtain x t where x: "read_text f w = Inr x" "parse_template r = Some t"
    "sub_loop p t False x = x"
    by (auto simp: c split: sum.splits option.splits)
  let ?w = "\<lparr>files = files w, out = out w @ [''No changes needed in '' @ f],
             writes = writes w\<rparr>"
  have r: "replace f p r w = Inr ?w"
    using replace_unchanged [OF x(1), of p r] x(2,3) by (simp add: re_sub_def)
  have same: "read_text g ?w = read_text g w" for g
    by (simp add: read_text_def)
  from Cons.prems have "\<forall>c\<in>set cs.
             case (read_text (fst c) w, parse_template (snd (snd c))) of
               (Inr x, Some t) \<Rightarrow> sub_loop (fst (snd c)) t False x = x
             | _ \<Rightarrow> False"
    by (meson list.set_intros(2))
  then have "\<forall>c\<in>set cs.
             case (read_text (fst c) ?w, parse_template (snd (snd c))) of
               (Inr x, Some t) \<Rightarrow> sub_loop (fst (snd c)) t False x = x
             | _ \<Rightarrow> False"
    by (simp only: same)
  then have "run_calls cs ?w =
          (?w\<lparr>out := out ?w @ map (\<lambda>c. ''No changes needed in '' @ fst c) cs\<rparr>, None)"
    by (rule Cons.IH)
  with r show ?case
    by (simp add: c bind_call_def)
qed

lemma dotted_template:
  assumes "dotted v"
  shows "parse_template (repl_label v) = Some (map Chr (repl_label v))"
    "parse_template (repl_cargo v) = Some (map Chr (repl_cargo v))"
    "parse_template (repl_ps_gen v) = Some (map Chr (repl_ps_gen v))"
    "parse_template (repl_ps_spec v) = Some (map Chr (repl_ps_spec v))"
    "parse_template (repl_sh_gen v) = Some (map Chr (repl_sh_gen v))"
    "parse_template (repl_sh_spec v) = Some (map Chr (repl_sh_spec v))"
  using repl_plain [OF dotted_no_bslash [OF assms]]
  by (simp_all add: parse_template_plain)

lemma dotted_no_cr:
  assumes "dotted v"
  shows "CHR 0x0D \<notin> set (repl_label v)" "CHR 0x0D \<notin> set (repl_cargo v)"
    "CHR 0x0D \<notin> set (repl_ps_gen v)" "CHR 0x0D \<notin> set (repl_ps_spec v)"
    "CHR 0x0D \<notin> set (repl_sh_gen v)" "CHR 0x0D \<notin> set (repl_sh_spec v)"
proof -
  have "\<not> (is_digit (CHR 0x0D) \<or> CHR 0x0D = CHR ''.'')"
    by (simp add: is_digit_def)
  with dotted_chars [OF assms] have "CHR 0x0D \<notin> set v"
    by (rule_tac notI) (drule (1) bspec, erule (1) notE)
  then show "CHR 0x0D \<notin> set (repl_label v)" "CHR 0x0D \<notin> set (repl_cargo v)"
    "CHR 0x0D \<notin> set (repl_ps_gen v)" "CHR 0x0D \<notin> set (repl_ps_spec v)"
    "CHR 0x0D \<notin> set (repl_sh_gen v)" "CHR 0x0D \<notin> set (repl_sh_spec v)"
    by (simp_all add: repl_defs)
qed

lemma first_run:
  assumes v: "dotted v" and g: "dotted g" and s: "dotted s"
      and f: "read_text ''Dockerfile.deploy'' w = Inr xdd" "read_text ''Dockerfile'' w = Inr xd"
        "read_text ''Cargo.toml'' w = Inr xc" "read_text ''oapigen.ps1'' w = Inr xps"
        "read_text ''oapigen.sh'' w = Inr xsh"
  shows "\<exists>w1. run_calls (calls v g s) w = (w1, None) \<and>
           read_text ''Dockerfile.deploy'' w1 =
             Inr (sub_loop pat_label (map Chr (repl_label v)) False xdd) \<and>
           read_text ''Dockerfile'' w1 =
             Inr (sub_loop pat_label (map Chr (repl_label v)) False xd) \<and>
           read_text ''Cargo.toml'' w1 =
             Inr (sub_loop pat_cargo (map Chr (repl_cargo v)) False xc) \<and>
           read_text ''oapigen.ps1'' w1 = Inr xps \<and>
           read_text ''oapigen.sh'' w1 =
             Inr (sub_loop pat_sh_spec (map Chr (repl_sh_spec s)) False
                   (sub_loop pat_sh_gen (map Chr (repl_sh_gen g)) False xsh))"
proof -
  note tv = dotted_template [OF v] and tg = dotted_template [OF g]
    and ts = dotted_template [OF s]
  note cv = dotted_no_cr [OF v] and cg = dotted_no_cr [OF g] and cs = dotted_no_cr [OF s]
  obtain w1 where w1:
    "replace ''Dockerfile.deploy'' pat_label (repl_label v) w = Inr w1"
    "read_text ''Dockerfile.deploy'' w1 =
       Inr (sub_loop pat_label (map Chr (repl_label v)) False xdd)"
    "\<forall>g. g \<noteq> ''Dockerfile.deploy'' \<longrightarrow> read_text g w1 = read_text g w"
    by (rule replace_reads [OF f(1) tv(1) cv(1), of pat_label], rule that)
  have r1: "read_text ''Dockerfile'' w1 = Inr xd" "read_text ''Cargo.toml'' w1 = Inr xc"
    "read_text ''oapigen.ps1'' w1 = Inr xps" "read_text ''oapigen.sh'' w1 = Inr xsh"
    by (simp_all add: w1(3) [rule_format] f)
  obtain w2 where w2:
    "replace ''Dockerfile'' pat_label (repl_label v) w1 = Inr w2"
    "read_text ''Dockerfile'' w2 =
       Inr (sub_loop pat_label (map Chr (repl_label v)) False xd)"
    "\<forall>g. g \<noteq> ''Dockerfile'' \<longrightarrow> read_text g w2 = read_text g w1"
    by (rule replace_reads [OF r1(1) tv(1) cv(1), of pat_label], rule that)
  have r2: "read_text ''Dockerfile.deploy'' w2 =
       Inr (sub_loop pat_label (map Chr (repl_label v)) False xdd)"
    "read_text ''Cargo.toml'' w2 = Inr xc"
    "read_text ''oapigen.ps1'' w2 = Inr xps" "read_text ''oapigen.sh'' w2 = Inr xsh"
    by (simp_all add: w2(3) [rule_format] w1(2) r1)
  obtain w3 where w3:
    "replace ''Cargo.toml'' pat_cargo (repl_cargo v) w2 = Inr w3"
    "read_text ''Cargo.toml'' w3 =
       Inr (sub_loop pat_cargo (map Chr (repl_cargo v)) False xc)"
    "\<forall>g. g \<noteq> ''Cargo.toml'' \<longrightarrow> read_text g w3 = read_text g w2"
    by (rule replace_reads [OF r2(2) tv(2) cv(2), of pat_cargo], rule that)
  have r3: "read_text ''Dockerfile.deploy'' w3 =
       Inr (sub_loop pat_label (map Chr (repl_label v)) False xdd)"
    "read_text ''Dockerfile'' w3 =
       Inr (sub_loop pat_label (map Chr (repl_label v)) False xd)"
    "read_text ''oapigen.ps1'' w3 = Inr xps" "read_text ''oapigen.sh'' w3 = Inr xsh"
    by (simp_all add: w3(3) [rule_format] w2(2) r2)
  obtain w4 where w4:
    "replace ''oapigen.ps1'' pat_ps_gen (repl_ps_gen g) w3 = Inr w4"
    "read_text ''oapigen.ps1'' w4 =
       Inr (sub_loop pat_ps_gen (map Chr (repl_ps_gen g)) False xps)"
    "\<forall>g. g \<noteq> ''oapigen.ps1'' \<longrightarrow> read_text g w4 = read_text g w3"
    by (rule replace_reads [OF r3(3) tg(3) cg(3), of pat_ps_gen], rule that)
  have r4: "read_text ''Dockerfile.deploy'' w4 =
       Inr (sub_loop pat_label (map Chr (repl_label v)) False xdd)"
    "read_text ''Dockerfile'' w4 =
       Inr (sub_loop pat_label (map Chr (repl_label v)) False xd)"
    "read_text ''Cargo.toml'' w4 =
       Inr (sub_loop pat_cargo (map Chr (repl_cargo v)) False xc)"
    "read_text ''oapigen.sh'' w4 = Inr xsh"
    by (simp_all add: w4(3) [rule_format] w3(2) r3)
  have p4: "read_text ''oapigen.ps1'' w4 = Inr xps"
    using w4(2) by (simp add: sub_loop_no_match ps_gen_no_match)
  obtain w5 where w5:
    "replace ''oapigen.ps1'' pat_ps_spec (repl_ps_spec s) w4 = Inr w5"
    "read_text ''oapigen.ps1'' w5 =
       Inr (sub_loop pat_ps_spec (map Chr (repl_ps_spec s)) False xps)"
    "\<forall>g. g \<noteq> ''oapigen.ps1'' \<longrightarrow> read_text g w5 = read_text g w4"
    by (rule replace_reads [OF p4 ts(4) cs(4), of pat_ps_spec], rule that)
  have r5: "read_text ''Dockerfile.deploy'' w5 =
       Inr (sub_loop pat_label (map Chr (repl_label v)) False xdd)"
    "read_text ''Dockerfile'' w5 =
       Inr (sub_loop pat_label (map Chr (repl_label v)) False xd)"
    "read_text ''Cargo.toml'' w5 =
       Inr (sub_loop pat_cargo (map Chr (repl_cargo v)) False xc)"
    "read_text ''oapigen.sh'' w5 = Inr xsh"
    by (simp_all add: w5(3) [rule_format] r4)
  have p5: "read_text ''oapigen.ps1'' w5 = Inr xps"
    using w5(2) by (simp add: sub_loop_no_match ps_spec_no_match)
  obtain w6 where w6:
    "replace ''oapigen.sh'' pat_sh_gen (repl_sh_gen g) w5 = Inr w6"
    "read_text ''oapigen.sh'' w6 =
       Inr (sub_loop pat_sh_gen (map Chr (repl_sh_gen g)) False xsh)"
    "\<forall>g. g \<noteq> ''oapigen.sh'' \<longrightarrow> read_text g w6 = read_text g w5"
    by (rule replace_reads [OF r5(4) tg(5) cg(5), of pat_sh_gen], rule that)
  have r6: "read_text ''Dockerfile.deploy'' w6 =
       Inr (sub_loop pat_label (map Chr (repl_label v)) False xdd)"
    "read_text ''Dockerfile'' w6 =
       Inr (sub_loop pat_label (map Chr (repl_label v)) False xd)"
    "read_text ''Cargo.toml'' w6 =
       Inr (sub_loop pat_cargo (map Chr (repl_cargo v)) False xc)"
    "read_text ''oapigen.ps1'' w6 = Inr xps"
    by (simp_all add: w6(3) [rule_format] r5 p5)
  obtain w7 where w7:
    "replace ''oapigen.sh'' pat_sh_spec (repl_sh_spec s) w6 = Inr w7"
    "read_text ''oapigen.sh'' w7 =
       Inr (sub_loop pat_sh_spec (map Chr (repl_sh_spec s)) False
             (sub_loop pat_sh_gen (map Chr (repl_sh_gen g)) False xsh))"
    "\<forall>g. g \<noteq> ''oapigen.sh'' \<longrightarrow> read_text g w7 = read_text g w6"
    by (rule replace_reads [OF w6(2) ts(6) cs(6), of pat_sh_spec], rule that)
  have r7: "read_text ''Dockerfile.deploy'' w7 =
       Inr (sub_loop pat_label (map Chr (repl_label v)) False xdd)"
    "read_text ''Dockerfile'' w7 =
       Inr (sub_loop pat_label (map Chr (repl_label v)) False xd)"
    "read_text ''Cargo.toml'' w7 =
       Inr (sub_loop pat_cargo (map Chr (repl_cargo v)) False xc)"
    "read_text ''oapigen.ps1'' w7 = Inr xps"
    by (simp_all add: w7(3) [rule_format] r6)
  have "run_calls (calls v g s) w = (w7, None)"
    unfolding calls_def
    by (simp add: bind_call_step [OF w1(1)] bind_call_step [OF w2(1)]
          bind_call_step [OF w3(1)] bind_call_step [OF w4(1)] bind_call_step [OF w5(1)]
          bind_call_step [OF w6(1)] bind_call_step [OF w7(1)] finish_def)
  with r7 w7(2) show ?thesis
    by (intro exI [of _ w7] conjI)
qed

lemma second_run:
  assumes v: "dotted v" and g: "dotted g" and s: "dotted s"
      and r: "read_text ''Dockerfile.deploy'' w1 =
             Inr (sub_loop pat_label (map Chr (repl_label v)) False xdd)"
           "read_text ''Dockerfile'' w1 =
             Inr (sub_loop pat_label (map Chr (repl_label v)) False xd)"
           "read_text ''Cargo.toml'' w1 =
             Inr (sub_loop pat_cargo (map Chr (repl_cargo v)) False xc)"
           "read_text ''oapigen.ps1'' w1 = Inr xps"
           "read_text ''oapigen.sh'' w1 =
             Inr (sub_loop pat_sh_spec (map Chr (repl_sh_spec s)) False
                   (sub_loop pat_sh_gen (map Chr (repl_sh_gen g)) False xsh))"
  shows "run_calls (calls v g s) w1 =
           (w1\<lparr>out := out w1 @
              [''No changes needed in Dockerfile.deploy'', ''No changes needed in Dockerfile'',
               ''No changes needed in Cargo.toml'', ''No changes needed in oapigen.ps1'',
               ''No changes needed in oapigen.ps1'', ''No changes needed in oapigen.sh'',
               ''No changes needed in oapigen.sh'']\<rparr>, None)"
proof -
  note tv = dotted_template [OF v] and tg = dotted_template [OF g]
    and ts = dotted_template [OF s]
  have gen: "sub_loop pat_sh_gen (map Chr (repl_sh_gen g)) False
      (sub_loop pat_sh_spec (map Chr (repl_sh_spec s)) False
         (sub_loop pat_sh_gen (map Chr (repl_sh_gen g)) False xsh)) =
      sub_loop pat_sh_spec (map Chr (repl_sh_spec s)) False
         (sub_loop pat_sh_gen (map Chr (repl_sh_gen g)) False xsh)"
    by (rule sh_gen_after_spec [OF g s sh_gen_idem [OF g]])
  have "run_calls (calls v g s) w1 =
      (w1\<lparr>out := out w1 @ map (\<lambda>c. ''No changes needed in '' @ fst c) (calls v g s)\<rparr>, None)"
    by (rule run_calls_stable)
       (simp add: calls_def r tv tg ts label_idem [OF v] cargo_idem [OF v]
          sh_spec_idem [OF s] gen sub_loop_no_match ps_gen_no_match ps_spec_no_match)
  then show ?thesis
    by (simp add: calls_def)
qed

lemma dotted_intro:
  assumes "d1 \<noteq> []" "\<forall>x\<in>set d1. is_digit x" "d2 \<noteq> []" "\<forall>x\<in>set d2. is_digit x"
      and "d3 \<noteq> []" "\<forall>x\<in>set d3. is_digit x"
  shows "dotted (d1 @ CHR ''.'' # d2 @ CHR ''.'' # d3)"
  using full_semver [OF assms, of "[]" "[]"] by (simp add: dotted_def)

section \<open>Properties\<close>

text \<open>
  C1, as it holds. When \<^verbatim>\<open>variables.toml\<close> is absent, or is not a TOML document, or
  has no field \<open>version.version\<close>, the run ends with an exception in the world it
  started in. When a field of \<^verbatim>\<open>[openapi]\<close> is absent, the run ends with an exception
  too, but only after the three calls made with the version: every file other than
  \<^verbatim>\<open>Dockerfile.deploy\<close>, \<^verbatim>\<open>Dockerfile\<close> and \<^verbatim>\<open>Cargo.toml\<close> is as it was.
\<close>

theorem config_failure_effects:
  "(cf = Absent \<or> cf = Malformed \<or>
    (\<exists>d. cf = Parsed d \<and> field d ''version'' ''version'' = None)
      \<longrightarrow> (\<exists>e. main cf w = (w, Some e))) \<and>
   (field d ''openapi'' ''oapigen-version'' = None \<or>
    field d ''openapi'' ''oapi-spec'' = None
      \<longrightarrow> (\<exists>e. snd (main (Parsed d) w) = Some e) \<and>
          (\<forall>f. f \<notin> {''Dockerfile.deploy'', ''Dockerfile'', ''Cargo.toml''}
                 \<longrightarrow> files (fst (main (Parsed d) w)) f = files w f))"
proof (intro conjI impI allI)
  assume "cf = Absent \<or> cf = Malformed \<or>
    (\<exists>d. cf = Parsed d \<and> field d ''version'' ''version'' = None)"
  then show "\<exists>e. main cf w = (w, Some e)"
    by (rule main_no_version)
next
  assume "field d ''openapi'' ''oapigen-version'' = None \<or>
    field d ''openapi'' ''oapi-spec'' = None"
  then have "config_values (Parsed d) = None"
    by (auto simp: config_values_def split: option.splits)
  then show "\<exists>e. snd (main (Parsed d) w) = Some e"
    by (rule main_fails)
next
  fix f
  assume "field d ''openapi'' ''oapigen-version'' = None \<or>
    field d ''openapi'' ''oapi-spec'' = None"
    and "f \<notin> {''Dockerfile.deploy'', ''Dockerfile'', ''Cargo.toml''}"
  then show "files (fst (main (Parsed d) w)) f = files w f"
    by (rule main_no_openapi_keeps)
qed

theorem config_failure_effects_witness:
  "(\<exists>e. main Malformed ex_world = (ex_world, Some e)) \<and>
   field doc_no_openapi ''openapi'' ''oapigen-version'' = None \<and>
   (\<exists>e. snd (main (Parsed doc_no_openapi) ex_world) = Some e) \<and>
   ''oapigen.sh'' \<notin> {''Dockerfile.deploy'', ''Dockerfile'', ''Cargo.toml''} \<and>
   files (fst (main (Parsed doc_no_openapi) ex_world)) ''oapigen.sh'' =
     files ex_world ''oapigen.sh''"
proof -
  have a: "field doc_no_openapi ''openapi'' ''oapigen-version'' = None"
    by (simp add: field_def doc_no_openapi_def)
  have b: "''oapigen.sh'' \<notin> {''Dockerfile.deploy'', ''Dockerfile'', ''Cargo.toml''}"
    by simp
  note t = config_failure_effects [of Malformed ex_world doc_no_openapi]
  from t have 1: "\<exists>e. main Malformed ex_world = (ex_world, Some e)"
    by (elim conjE) simp
  from t a have 2: "(\<exists>e. snd (main (Parsed doc_no_openapi) ex_world) = Some e) \<and>
          (\<forall>f. f \<notin> {''Dockerfile.deploy'', ''Dockerfile'', ''Cargo.toml''}
                 \<longrightarrow> files (fst (main (Parsed doc_no_openapi) ex_world)) f = files ex_world f)"
    by (elim conjE) (erule mp, rule disjI1)
  from 2 b have 3: "files (fst (main (Parsed doc_no_openapi) ex_world)) ''oapigen.sh'' =
     files ex_world ''oapigen.sh''"
    by (elim conjE allE) (erule mp)
  from 1 2 3 a b show ?thesis
    by (intro conjI) (erule conjunct1 | assumption)+
qed

text \<open>
  C1 as stated fails when \<^verbatim>\<open>[openapi]\<close> is absent: the run ends with
  \<^verbatim>\<open>KeyError\<close> after it has rewritten \<^verbatim>\<open>Dockerfile.deploy\<close>.
\<close>

theorem missing_openapi_counterexample:
  \<open>field doc_no_openapi ''openapi'' ''oapigen-version'' = None \<and>
   snd (main (Parsed doc_no_openapi) ex_world) = Some (KeyError ''openapi'') \<and>
   files ex_world ''Dockerfile.deploy'' = Some ''LABEL version="1.0.0"'' \<and>
   files (fst (main (Parsed doc_no_openapi) ex_world)) ''Dockerfile.deploy'' =
     Some ''LABEL version="2.0.1"'' \<and>
   writes (fst (main (Parsed doc_no_openapi) ex_world)) =
     [(''Dockerfile.deploy'', ''LABEL version="2.0.1"''),
      (''Cargo.toml'', ''version = "2.0.1"'')]\<close>
  by (simp add: run_defs pattern_defs repl_defs char_defs doc_no_openapi_def ex_world_def
        sub_loop.simps field_def)

text \<open>
  C2, as it holds. The script makes seven calls of \<^verbatim>\<open>replace\<close>, not six: three with
  the version and four with the two values of \<^verbatim>\<open>[openapi]\<close>. A run that ends without
  an exception is the run of these seven calls in order, and it prints exactly seven
  lines, one status line for each call, and nothing after them.
\<close>

theorem completed_run_makes_seven_calls:
  assumes "main cf w = (w', None)"
  shows "\<exists>v g s lines.
           main cf = run_calls (calls v g s) \<and> length (calls v g s) = 7 \<and>
           out w' = out w @ lines \<and> length lines = 7 \<and>
           (\<forall>l\<in>set lines. status_line l)"
proof -
  obtain v g s where vals: "config_values cf = Some (v, g, s)"
    using main_fails [of cf w] assms by (cases "config_values cf") auto
  have m: "main cf = run_calls (calls v g s)"
    by (rule main_calls [OF vals])
  have n: "length (calls v g s) = 7"
    by (simp add: calls_def)
  from assms m have "run_calls (calls v g s) w = (w', None)"
    by simp
  from run_calls_out [OF this] n m show ?thesis
    by metis
qed

text \<open>
  C2 as stated fails on the scenario of the specification: the run ends without an
  exception and has printed seven lines, the last two for the two calls on
  \<^verbatim>\<open>oapigen.sh\<close>.
\<close>

theorem six_calls_counterexample:
  "snd (main ex_cfg ex_world) = None \<and>
   out (fst (main ex_cfg ex_world)) =
     [''Updated Dockerfile.deploy'', ''No changes needed in Dockerfile'',
      ''Updated Cargo.toml'', ''No changes needed in oapigen.ps1'',
      ''No changes needed in oapigen.ps1'', ''No changes needed in oapigen.sh'',
      ''Updated oapigen.sh''] \<and>
   length (out (fst (main ex_cfg ex_world))) \<noteq> 6"
  by (simp add: run_defs pattern_defs repl_defs char_defs ex_cfg_def ex_world_def
        sub_loop.simps)

theorem completed_run_makes_seven_calls_witness:
  "main ex_cfg ex_world = (fst (main ex_cfg ex_world), None) \<and>
   (\<exists>v g s lines.
      main ex_cfg = run_calls (calls v g s) \<and> length (calls v g s) = 7 \<and>
      out (fst (main ex_cfg ex_world)) = out ex_world @ lines \<and> length lines = 7 \<and>
      (\<forall>l\<in>set lines. status_line l))"
proof -
  have "snd (main ex_cfg ex_world) = None"
    by (simp add: run_defs pattern_defs repl_defs char_defs ex_cfg_def ex_world_def
          sub_loop.simps)
  then have h: "main ex_cfg ex_world = (fst (main ex_cfg ex_world), None)"
    by (simp add: prod_eq_iff)
  from completed_run_makes_seven_calls [OF h] h show ?thesis
    by simp
qed

text \<open>
  C3, as it holds. Let the file exist and let \<open>text\<close> be what \<^verbatim>\<open>read_text\<close> returns
  for it. If \<^verbatim>\<open>re.sub\<close> refuses the replacement value as a template, the call raises
  and nothing is written or printed. Otherwise the call returns, and the text it
  computes is the one text that a single pass over \<open>text\<close> from left to right gives,
  with the expansion of the template in the place of every match and every other
  character copied. If that text differs from \<open>text\<close>, the one write of the call puts
  it at the same path and the line printed is "Updated" with the path; if it equals
  \<open>text\<close>, nothing is written, every file is as it was, and the line printed is
  "No changes needed in" with the path. Either way exactly one line is printed and at
  most one write is made.
\<close>

theorem replace_single_pass_then_reports:
  assumes "read_text file w = Inr text"
  shows "case parse_template replacement of
           None \<Rightarrow> replace file pattern replacement w = Inl TemplateError
         | Some t \<Rightarrow>
             (\<exists>new_text w'.
                single_pass pattern t False text new_text \<and>
                (\<forall>n. single_pass pattern t False text n \<longrightarrow> n = new_text) \<and>
                replace file pattern replacement w = Inr w' \<and>
                (if new_text \<noteq> text
                 then files w' = (files w)(file \<mapsto> new_text) \<and>
                      writes w' = writes w @ [(file, new_text)] \<and>
                      out w' = out w @ [''Updated '' @ file]
                 else files w' = files w \<and> writes w' = writes w \<and>
                      out w' = out w @ [''No changes needed in '' @ file]) \<and>
                length (out w') = length (out w) + 1 \<and>
                length (writes w') \<le> length (writes w) + 1)"
proof (cases "parse_template replacement")
  case None
  then show ?thesis
    by (simp add: replace_bad_template [OF assms])
next
  case (Some t)
  let ?n = "sub_loop pattern t False text"
  have rs: "re_sub pattern replacement text = Inr ?n"
    by (simp add: re_sub_def Some)
  have sp: "single_pass pattern t False text ?n"
    by (rule sub_loop_single_pass)
  have un: "\<forall>n. single_pass pattern t False text n \<longrightarrow> n = ?n"
    by (intro allI impI) (erule single_pass_unique)
  have "\<exists>w'. replace file pattern replacement w = Inr w' \<and>
          (if ?n \<noteq> text
           then files w' = (files w)(file \<mapsto> ?n) \<and>
                writes w' = writes w @ [(file, ?n)] \<and>
                out w' = out w @ [''Updated '' @ file]
           else files w' = files w \<and> writes w' = writes w \<and>
                out w' = out w @ [''No changes needed in '' @ file]) \<and>
          length (out w') = length (out w) + 1 \<and>
          length (writes w') \<le> length (writes w) + 1"
  proof (cases "?n = text")
    case True
    with replace_unchanged [OF assms, of pattern replacement] rs show ?thesis
      by simp
  next
    case False
    with replace_changed [OF assms rs] show ?thesis
      by simp
  qed
  then obtain w' where w': "replace file pattern replacement w = Inr w'"
    "if ?n \<noteq> text
     then files w' = (files w)(file \<mapsto> ?n) \<and>
          writes w' = writes w @ [(file, ?n)] \<and>
          out w' = out w @ [''Updated '' @ file]
     else files w' = files w \<and> writes w' = writes w \<and>
          out w' = out w @ [''No changes needed in '' @ file]"
    "length (out w') = length (out w) + 1"
    "length (writes w') \<le> length (writes w) + 1"
    by (elim exE conjE) (rule that)
  show ?thesis
    unfolding Some option.case
    by (rule exI [of _ ?n], rule exI [of _ w']) (intro conjI sp un w')
qed

theorem replace_single_pass_then_reports_witness:
  \<open>read_text ''Dockerfile.deploy'' ex_world = Inr ''LABEL version="1.0.0"'' \<and>
   parse_template (repl_label ''2.0.1'') = Some (map Chr ''LABEL version="2.0.1"'') \<and>
   (\<exists>w'. single_pass pat_label (map Chr ''LABEL version="2.0.1"'') False
            ''LABEL version="1.0.0"'' ''LABEL version="2.0.1"'' \<and>
          replace ''Dockerfile.deploy'' pat_label (repl_label ''2.0.1'') ex_world = Inr w' \<and>
          files w' ''Dockerfile.deploy'' = Some ''LABEL version="2.0.1"'' \<and>
          writes w' = [(''Dockerfile.deploy'', ''LABEL version="2.0.1"'')] \<and>
          out w' = [''Updated Dockerfile.deploy''])\<close>
proof -
  have f: \<open>read_text ''Dockerfile.deploy'' ex_world = Inr ''LABEL version="1.0.0"''\<close>
    by (simp add: read_text_def ex_world_def)
  have t: \<open>parse_template (repl_label ''2.0.1'') = Some (map Chr ''LABEL version="2.0.1"'')\<close>
    by (simp add: repl_label_def bslash_def)
  have o: "out ex_world = []" "writes ex_world = []"
    by (simp_all add: ex_world_def)
  have s: \<open>sub_loop pat_label (map Chr ''LABEL version="2.0.1"'') False
             ''LABEL version="1.0.0"'' = ''LABEL version="2.0.1"''\<close>
    by (simp add: pattern_defs char_defs sub_loop.simps)
  from replace_single_pass_then_reports [OF f, of pat_label "repl_label ''2.0.1''"]
  obtain n w' where
    sp: \<open>single_pass pat_label (map Chr ''LABEL version="2.0.1"'') False
           ''LABEL version="1.0.0"'' n\<close>
    and r: "replace ''Dockerfile.deploy'' pat_label (repl_label ''2.0.1'') ex_world = Inr w'"
    and c: \<open>if n \<noteq> ''LABEL version="1.0.0"''
           then files w' = (files ex_world)(''Dockerfile.deploy'' \<mapsto> n) \<and>
                writes w' = writes ex_world @ [(''Dockerfile.deploy'', n)] \<and>
                out w' = out ex_world @ [''Updated '' @ ''Dockerfile.deploy'']
           else files w' = files ex_world \<and> writes w' = writes ex_world \<and>
                out w' = out ex_world @ [''No changes needed in '' @ ''Dockerfile.deploy'']\<close>
    unfolding t option.case by (elim exE conjE) (rule that)
  from single_pass_unique [OF sp] have n: \<open>n = ''LABEL version="2.0.1"''\<close>
    unfolding s .
  from c have c': \<open>files w' ''Dockerfile.deploy'' = Some ''LABEL version="2.0.1"''\<close>
    \<open>writes w' = [(''Dockerfile.deploy'', ''LABEL version="2.0.1"'')]\<close>
    "out w' = [''Updated Dockerfile.deploy'']"
    unfolding n by (simp_all add: o)
  from sp have sp': \<open>single_pass pat_label (map Chr ''LABEL version="2.0.1"'') False
            ''LABEL version="1.0.0"'' ''LABEL version="2.0.1"''\<close>
    unfolding n .
  show ?thesis
    by (intro conjI f t exI [of _ w'] sp' r c')
qed

text \<open>
  C3 as stated fails for a replacement value that \<^verbatim>\<open>re.sub\<close> refuses as a template.
  With the version \<^verbatim>\<open>2.0\q\<close> (a backslash and the letter q) the call on
  \<^verbatim>\<open>Dockerfile.deploy\<close>, a file that exists, raises: no line is printed by the call,
  and the run ends there in the world it started in, with nothing printed at all.
\<close>

theorem bad_template_prints_nothing_counterexample:
  \<open>files ex_world ''Dockerfile.deploy'' = Some ''LABEL version="1.0.0"'' \<and>
   replace ''Dockerfile.deploy'' pat_label (repl_label (''2.0'' @ [bslash, CHR ''q''])) ex_world =
     Inl TemplateError \<and>
   main cfg_bad_version ex_world = (ex_world, Some TemplateError) \<and>
   out ex_world = []\<close>
  by (simp add: run_defs repl_defs char_defs cfg_bad_version_def ex_world_def
        escape_def esc_other_def is_asciiletter_def)

text \<open>
  C4, as it holds. Each of the two patterns of the calls on \<^verbatim>\<open>oapigen.ps1\<close> starts with
  the end anchor followed by a letter, so it matches at no position of any text. For
  every content of the file and every value, neither call changes a file or writes: a
  call whose template \<^verbatim>\<open>re.sub\<close> accepts, as it does every value without a backslash,
  returns and prints "No changes needed in oapigen.ps1"; a call whose template
  \<^verbatim>\<open>re.sub\<close> refuses raises and prints nothing.
\<close>

theorem ps1_rules_never_match:
  assumes "files w ''oapigen.ps1'' = Some content"
  shows "match_here pat_ps_gen must x = None \<and> match_here pat_ps_spec must x = None \<and>
         replace ''oapigen.ps1'' pat_ps_gen (repl_ps_gen g) w =
           (case parse_template (repl_ps_gen g) of
              None \<Rightarrow> Inl TemplateError
            | Some t \<Rightarrow>
                Inr \<lparr>files = files w, out = out w @ [''No changes needed in oapigen.ps1''],
                     writes = writes w\<rparr>) \<and>
         replace ''oapigen.ps1'' pat_ps_spec (repl_ps_spec s) w =
           (case parse_template (repl_ps_spec s) of
              None \<Rightarrow> Inl TemplateError
            | Some t \<Rightarrow>
                Inr \<lparr>files = files w, out = out w @ [''No changes needed in oapigen.ps1''],
                     writes = writes w\<rparr>) \<and>
         (bslash \<notin> set g \<longrightarrow> parse_template (repl_ps_gen g) = Some (map Chr (repl_ps_gen g))) \<and>
         (bslash \<notin> set s \<longrightarrow> parse_template (repl_ps_spec s) = Some (map Chr (repl_ps_spec s)))"
proof -
  let ?old = "universal_newlines content"
  have rd: "read_text ''oapigen.ps1'' w = Inr ?old"
    by (rule read_text_Some [OF assms])
  have a: "replace ''oapigen.ps1'' pat_ps_gen (repl_ps_gen g) w =
           (case parse_template (repl_ps_gen g) of
              None \<Rightarrow> Inl TemplateError
            | Some t \<Rightarrow>
                Inr \<lparr>files = files w, out = out w @ [''No changes needed in oapigen.ps1''],
                     writes = writes w\<rparr>)"
  proof (cases "parse_template (repl_ps_gen g)")
    case None
    then show ?thesis
      by (simp add: replace_bad_template [OF rd])
  next
    case (Some t)
    then have "re_sub pat_ps_gen (repl_ps_gen g) ?old = Inr ?old"
      by (simp add: re_sub_def sub_loop_no_match ps_gen_no_match)
    from replace_unchanged [OF rd this] Some show ?thesis
      by simp
  qed
  have b: "replace ''oapigen.ps1'' pat_ps_spec (repl_ps_spec s) w =
           (case parse_template (repl_ps_spec s) of
              None \<Rightarrow> Inl TemplateError
            | Some t \<Rightarrow>
                Inr \<lparr>files = files w, out = out w @ [''No changes needed in oapigen.ps1''],
                     writes = writes w\<rparr>)"
  proof (cases "parse_template (repl_ps_spec s)")
    case None
    then show ?thesis
      by (simp add: replace_bad_template [OF rd])
  next
    case (Some t)
    then have "re_sub pat_ps_spec (repl_ps_spec s) ?old = Inr ?old"
      by (simp add: re_sub_def sub_loop_no_match ps_spec_no_match)
    from replace_unchanged [OF rd this] Some show ?thesis
      by simp
  qed
  have c: "parse_template (repl_ps_gen g) = Some (map Chr (repl_ps_gen g))"
    if "bslash \<notin> set g"
    using repl_plain [OF that] by (simp add: parse_template_plain)
  have d: "parse_template (repl_ps_spec s) = Some (map Chr (repl_ps_spec s))"
    if "bslash \<notin> set s"
    using repl_plain [OF that] by (simp add: parse_template_plain)
  show ?thesis
    by (intro conjI impI ps_gen_no_match ps_spec_no_match a b c d)
qed

theorem ps1_rules_never_match_witness:
  \<open>files ex_world ''oapigen.ps1'' = Some ''$SPEC_PATH="1.2.3"'' \<and>
   bslash \<notin> set ''3.1.0'' \<and>
   match_here pat_ps_spec False ''$SPEC_PATH="1.2.3"'' = None \<and>
   parse_template (repl_ps_spec ''3.1.0'') = Some (map Chr (repl_ps_spec ''3.1.0'')) \<and>
   replace ''oapigen.ps1'' pat_ps_spec (repl_ps_spec ''3.1.0'') ex_world =
     Inr \<lparr>files = files ex_world, out = [''No changes needed in oapigen.ps1''],
          writes = []\<rparr>\<close>
proof -
  have f: \<open>files ex_world ''oapigen.ps1'' = Some ''$SPEC_PATH="1.2.3"''\<close>
    by (simp add: ex_world_def)
  have n: "bslash \<notin> set ''3.1.0''"
    by (simp add: bslash_def)
  have o: "out ex_world = []" "writes ex_world = []"
    by (simp_all add: ex_world_def)
  note t = ps1_rules_never_match [OF f, of False \<open>''$SPEC_PATH="1.2.3"''\<close> "''5.4.0''" "''3.1.0''"]
  from t have 1: \<open>match_here pat_ps_spec False ''$SPEC_PATH="1.2.3"'' = None\<close>
    by (elim conjE)
  from t n have 2: "parse_template (repl_ps_spec ''3.1.0'') = Some (map Chr (repl_ps_spec ''3.1.0''))"
    by (elim conjE) (erule (1) mp)
  from t have "replace ''oapigen.ps1'' pat_ps_spec (repl_ps_spec ''3.1.0'') ex_world =
           (case parse_template (repl_ps_spec ''3.1.0'') of
              None \<Rightarrow> Inl TemplateError
            | Some t \<Rightarrow>
                Inr \<lparr>files = files ex_world,
                     out = out ex_world @ [''No changes needed in oapigen.ps1''],
                     writes = writes ex_world\<rparr>)"
    by (elim conjE)
  then have 3: "replace ''oapigen.ps1'' pat_ps_spec (repl_ps_spec ''3.1.0'') ex_world =
     Inr \<lparr>files = files ex_world, out = [''No changes needed in oapigen.ps1''],
          writes = []\<rparr>"
    unfolding 2 option.case o by simp
  show ?thesis
    by (intro conjI f n 1 2 3)
qed

text \<open>
  C4 as stated fails for a value that \<^verbatim>\<open>re.sub\<close> refuses as a template. With the
  generator version \<^verbatim>\<open>5.4\q\<close> (a backslash and the letter q) the first call on
  \<^verbatim>\<open>oapigen.ps1\<close> raises and reports nothing: the run ends with the exception after
  the three lines of the calls made with the version, and no line names
  \<^verbatim>\<open>oapigen.ps1\<close>.
\<close>

theorem ps1_bad_template_counterexample:
  \<open>files ex_world ''oapigen.ps1'' = Some ''$SPEC_PATH="1.2.3"'' \<and>
   snd (main cfg_bad_gen ex_world) = Some TemplateError \<and>
   replace ''oapigen.ps1'' pat_ps_gen (repl_ps_gen (''5.4'' @ [bslash, CHR ''q''])) ex_world =
     Inl TemplateError \<and>
   out (fst (main cfg_bad_gen ex_world)) =
     [''Updated Dockerfile.deploy'', ''No changes needed in Dockerfile'',
      ''Updated Cargo.toml'']\<close>
  by (simp add: run_defs pattern_defs repl_defs char_defs cfg_bad_gen_def ex_world_def
        sub_loop.simps escape_def esc_other_def is_asciiletter_def)




text \<open>
  C6, as it holds. Let the five target files exist and let the three values be dotted
  numbers (digits, dot, digits, dot, digits). Then the run ends without an exception, and
  a second run with the same configuration, started in the world the first run has
  left, ends without an exception too, writes nothing, leaves every file as it is and
  prints "No changes needed" for each of the seven calls.
\<close>

theorem second_run_changes_nothing:
  assumes "config_values cf = Some (v, g, s)"
      and "dotted v" and "dotted g" and "dotted s"
      and "\<forall>f\<in>{''Dockerfile.deploy'', ''Dockerfile'', ''Cargo.toml'', ''oapigen.ps1'',
                ''oapigen.sh''}. files w f \<noteq> None"
  shows "\<exists>w1. main cf w = (w1, None) \<and>
           main cf w1 =
             (w1\<lparr>out := out w1 @
                [''No changes needed in Dockerfile.deploy'',
                 ''No changes needed in Dockerfile'',
                 ''No changes needed in Cargo.toml'',
                 ''No changes needed in oapigen.ps1'',
                 ''No changes needed in oapigen.ps1'',
                 ''No changes needed in oapigen.sh'',
                 ''No changes needed in oapigen.sh'']\<rparr>, None)"
proof -
  from assms(5) obtain ydd yd yc yps ysh where f0:
    "files w ''Dockerfile.deploy'' = Some ydd" "files w ''Dockerfile'' = Some yd"
    "files w ''Cargo.toml'' = Some yc" "files w ''oapigen.ps1'' = Some yps"
    "files w ''oapigen.sh'' = Some ysh"
    by auto
  note f = f0 [THEN read_text_Some]
  have m: "main cf = run_calls (calls v g s)"
    by (rule main_calls [OF assms(1)])
  from first_run [OF assms(2-4) f] obtain w1 where w1:
    "run_calls (calls v g s) w = (w1, None)"
    and r: "read_text ''Dockerfile.deploy'' w1 =
             Inr (sub_loop pat_label (map Chr (repl_label v)) False (universal_newlines ydd))"
           "read_text ''Dockerfile'' w1 =
             Inr (sub_loop pat_label (map Chr (repl_label v)) False (universal_newlines yd))"
           "read_text ''Cargo.toml'' w1 =
             Inr (sub_loop pat_cargo (map Chr (repl_cargo v)) False (universal_newlines yc))"
           "read_text ''oapigen.ps1'' w1 = Inr (universal_newlines yps)"
           "read_text ''oapigen.sh'' w1 =
             Inr (sub_loop pat_sh_spec (map Chr (repl_sh_spec s)) False
                   (sub_loop pat_sh_gen (map Chr (repl_sh_gen g)) False
                      (universal_newlines ysh)))"
    by (elim exE conjE) (rule that)
  from second_run [OF assms(2-4) r] show ?thesis
    unfolding m by (intro exI [of _ w1] conjI w1)
qed


theorem second_run_changes_nothing_witness:
  \<open>config_values ex_cfg = Some (''2.0.1'', ''5.4.0'', ''3.1.0'') \<and>
   dotted ''2.0.1'' \<and> dotted ''5.4.0'' \<and> dotted ''3.1.0'' \<and>
   files ex_world ''Dockerfile.deploy'' = Some ''LABEL version="1.0.0"'' \<and>
   files ex_world ''Dockerfile'' = Some ''FROM rust'' \<and>
   files ex_world ''Cargo.toml'' = Some ''version="0.1.0"'' \<and>
   files ex_world ''oapigen.ps1'' = Some ''$SPEC_PATH="1.2.3"'' \<and>
   files ex_world ''oapigen.sh'' = Some ''SPEC_PATH="1.2.3"'' \<and>
   (\<exists>w1. main ex_cfg ex_world = (w1, None) \<and>
          main ex_cfg w1 =
            (w1\<lparr>out := out w1 @
               [''No changes needed in Dockerfile.deploy'',
                ''No changes needed in Dockerfile'',
                ''No changes needed in Cargo.toml'',
                ''No changes needed in oapigen.ps1'',
                ''No changes needed in oapigen.ps1'',
                ''No changes needed in oapigen.sh'',
                ''No changes needed in oapigen.sh'']\<rparr>, None))\<close>
proof -
  have c: "config_values ex_cfg = Some (''2.0.1'', ''5.4.0'', ''3.1.0'')"
    by (simp add: config_values_def field_def ex_cfg_def py_format_def)
  have v: "dotted ''2.0.1''"
    using dotted_intro [of "''2''" "''0''" "''1''"] by (simp add: is_digit_def)
  have g: "dotted ''5.4.0''"
    using dotted_intro [of "''5''" "''4''" "''0''"] by (simp add: is_digit_def)
  have s: "dotted ''3.1.0''"
    using dotted_intro [of "''3''" "''1''" "''0''"] by (simp add: is_digit_def)
  have e: \<open>files ex_world ''Dockerfile.deploy'' = Some ''LABEL version="1.0.0"''\<close>
    \<open>files ex_world ''Dockerfile'' = Some ''FROM rust''\<close>
    \<open>files ex_world ''Cargo.toml'' = Some ''version="0.1.0"''\<close>
    \<open>files ex_world ''oapigen.ps1'' = Some ''$SPEC_PATH="1.2.3"''\<close>
    \<open>files ex_world ''oapigen.sh'' = Some ''SPEC_PATH="1.2.3"''\<close>
    by (simp_all add: ex_world_def)
  have f: "\<forall>f\<in>{''Dockerfile.deploy'', ''Dockerfile'', ''Cargo.toml'', ''oapigen.ps1'',
          ''oapigen.sh''}. files ex_world f \<noteq> None"
    by (simp add: e)
  from second_run_changes_nothing [OF c v g s f] c v g s e show ?thesis
    by (intro conjI)
qed

text \<open>
  C6 as stated fails for a value that is not a dotted number. With the version
  \<^verbatim>\<open>1.0.0" LABEL version="1.0.0\<close> both runs end without an exception, and the second
  run, with the same configuration, prints "Updated" for \<^verbatim>\<open>Dockerfile.deploy\<close> and
  for \<^verbatim>\<open>Cargo.toml\<close> and changes \<^verbatim>\<open>Dockerfile.deploy\<close> again: the text the first
  run has put in holds two matches of the pattern.
\<close>

theorem second_run_updates_counterexample:
  \<open>snd (main cfg_quoted ex_world) = None \<and>
   files (fst (main cfg_quoted ex_world)) ''Dockerfile.deploy'' =
     Some ''LABEL version="1.0.0" LABEL version="1.0.0"'' \<and>
   snd (main cfg_quoted (fst (main cfg_quoted ex_world))) = None \<and>
   out (fst (main cfg_quoted (fst (main cfg_quoted ex_world)))) =
     out (fst (main cfg_quoted ex_world)) @
     [''Updated Dockerfile.deploy'', ''No changes needed in Dockerfile'',
      ''Updated Cargo.toml'', ''No changes needed in oapigen.ps1'',
      ''No changes needed in oapigen.ps1'', ''No changes needed in oapigen.sh'',
      ''No changes needed in oapigen.sh''] \<and>
   files (fst (main cfg_quoted (fst (main cfg_quoted ex_world)))) ''Dockerfile.deploy'' =
     Some (''LABEL version="1.0.0" LABEL version="1.0.0" '' @
           ''LABEL version="1.0.0" LABEL version="1.0.0"'')\<close>
  by (simp add: run_defs pattern_defs repl_defs char_defs cfg_quoted_def ex_world_def
        sub_loop.simps)

text \<open>
  C7, as it holds. Take the calls in any order and swap two neighbours that name
  different files. If the run in the first order ends without an exception, so does the
  run in the second, with the same content of every file and the same status lines,
  each as often as before.
\<close>

theorem swap_calls_on_different_files:
  assumes "fst a \<noteq> fst b"
      and "run_calls (xs @ a # b # ys) w = (w1, None)"
  shows "\<exists>w2. run_calls (xs @ b # a # ys) w = (w2, None) \<and>
           files w2 = files w1 \<and> mset (out w2) = mset (out w1)"
proof -
  obtain f1 p1 r1 where a: "a = (f1, p1, r1)" by (cases a)
  obtain f2 p2 r2 where b: "b = (f2, p2, r2)" by (cases b)
  from assms(1) have ne: "f1 \<noteq> f2" by (simp add: a b)
  from assms(2) obtain wx where wx: "run_calls xs w = (wx, None)"
    and rest: "run_calls (a # b # ys) wx = (w1, None)"
    by (auto simp: run_calls_append split: prod.splits option.splits)
  from rest obtain wa wab where wa: "replace f1 p1 r1 wx = Inr wa"
    and wab: "replace f2 p2 r2 wa = Inr wab"
    and ys: "run_calls ys wab = (w1, None)"
    by (auto simp: a b bind_call_def split: sum.splits)
  from replace_swap [OF ne wa wab] obtain wb wba where sw:
    "replace f2 p2 r2 wx = Inr wb" "replace f1 p1 r1 wb = Inr wba"
    "files wba = files wab" "mset (out wba) = mset (out wab)"
    by blast
  from run_calls_frame [OF ys sw(3)] obtain w2 lines where w2:
    "run_calls ys wba = (w2, None)" "files w2 = files w1"
    "out w1 = out wab @ lines" "out w2 = out wba @ lines"
    by blast
  have "run_calls (xs @ b # a # ys) w = (w2, None)"
    by (simp add: run_calls_append wx a b bind_call_def sw w2)
  moreover have "mset (out w2) = mset (out w1)"
    by (simp add: w2 sw)
  ultimately show ?thesis
    using w2(2) by blast
qed

theorem swap_calls_on_different_files_witness:
  "fst (''Cargo.toml'', pat_cargo, repl_cargo ''2.0.1'') \<noteq>
     fst (''oapigen.ps1'', pat_ps_gen, repl_ps_gen ''5.4.0'') \<and>
   run_calls (calls ''2.0.1'' ''5.4.0'' ''3.1.0'') ex_world =
     (fst (run_calls (calls ''2.0.1'' ''5.4.0'' ''3.1.0'') ex_world), None) \<and>
   (\<exists>w2. run_calls
            [(''Dockerfile.deploy'', pat_label, repl_label ''2.0.1''),
             (''Dockerfile'', pat_label, repl_label ''2.0.1''),
             (''oapigen.ps1'', pat_ps_gen, repl_ps_gen ''5.4.0''),
             (''Cargo.toml'', pat_cargo, repl_cargo ''2.0.1''),
             (''oapigen.ps1'', pat_ps_spec, repl_ps_spec ''3.1.0''),
             (''oapigen.sh'', pat_sh_gen, repl_sh_gen ''5.4.0''),
             (''oapigen.sh'', pat_sh_spec, repl_sh_spec ''3.1.0'')] ex_world = (w2, None) \<and>
          files w2 = files (fst (run_calls (calls ''2.0.1'' ''5.4.0'' ''3.1.0'') ex_world)) \<and>
          mset (out w2) =
            mset (out (fst (run_calls (calls ''2.0.1'' ''5.4.0'' ''3.1.0'') ex_world))))"
proof -
  let ?a = "(''Cargo.toml'', pat_cargo, repl_cargo ''2.0.1'')"
  let ?b = "(''oapigen.ps1'', pat_ps_gen, repl_ps_gen ''5.4.0'')"
  let ?xs = "[(''Dockerfile.deploy'', pat_label, repl_label ''2.0.1''),
              (''Dockerfile'', pat_label, repl_label ''2.0.1'')]"
  let ?ys = "[(''oapigen.ps1'', pat_ps_spec, repl_ps_spec ''3.1.0''),
              (''oapigen.sh'', pat_sh_gen, repl_sh_gen ''5.4.0''),
              (''oapigen.sh'', pat_sh_spec, repl_sh_spec ''3.1.0'')]"
  have ne: "fst ?a \<noteq> fst ?b" by simp
  have c: "calls ''2.0.1'' ''5.4.0'' ''3.1.0'' = ?xs @ ?a # ?b # ?ys"
    by (simp add: calls_def)
  have "snd (run_calls (calls ''2.0.1'' ''5.4.0'' ''3.1.0'') ex_world) = None"
    by (simp add: calls_def run_defs pattern_defs repl_defs char_defs ex_world_def
          sub_loop.simps)
  then have r: "run_calls (?xs @ ?a # ?b # ?ys) ex_world =
      (fst (run_calls (calls ''2.0.1'' ''5.4.0'' ''3.1.0'') ex_world), None)"
    unfolding c [symmetric] by (simp add: prod_eq_iff)
  from swap_calls_on_different_files [OF ne r] ne r show ?thesis
    unfolding c [symmetric] by simp
qed

text \<open>
  C7 as stated fails. The seven calls name five files: two calls are on
  \<^verbatim>\<open>oapigen.ps1\<close> and two on \<^verbatim>\<open>oapigen.sh\<close>. The two on \<^verbatim>\<open>oapigen.sh\<close> do not
  commute: here the first call puts in a text that the second call's pattern matches, so
  the script's order and the order with the last two calls swapped leave different
  contents.
\<close>

theorem calls_share_files_counterexample:
  \<open>length (calls ''2.0.1'' ''SPEC_PATH="1.2.3"'' ''9.9.9'') = 7 \<and>
   \<not> distinct (map fst (calls ''2.0.1'' ''SPEC_PATH="1.2.3"'' ''9.9.9'')) \<and>
   main cfg_nested = run_calls (calls ''2.0.1'' ''SPEC_PATH="1.2.3"'' ''9.9.9'') \<and>
   snd (main cfg_nested world_nested) = None \<and>
   files (fst (main cfg_nested world_nested)) ''oapigen.sh'' =
     Some ''OPENAPI_GENERATOR_VERSION="SPEC_PATH="9.9.9""'' \<and>
   snd (run_calls (take 5 (calls ''2.0.1'' ''SPEC_PATH="1.2.3"'' ''9.9.9'') @
          [calls ''2.0.1'' ''SPEC_PATH="1.2.3"'' ''9.9.9'' ! 6,
           calls ''2.0.1'' ''SPEC_PATH="1.2.3"'' ''9.9.9'' ! 5]) world_nested) = None \<and>
   files (fst (run_calls (take 5 (calls ''2.0.1'' ''SPEC_PATH="1.2.3"'' ''9.9.9'') @
          [calls ''2.0.1'' ''SPEC_PATH="1.2.3"'' ''9.9.9'' ! 6,
           calls ''2.0.1'' ''SPEC_PATH="1.2.3"'' ''9.9.9'' ! 5]) world_nested)) ''oapigen.sh'' =
     Some ''OPENAPI_GENERATOR_VERSION="SPEC_PATH="1.2.3""''\<close>
proof -
  have m: \<open>main cfg_nested = run_calls (calls ''2.0.1'' ''SPEC_PATH="1.2.3"'' ''9.9.9'')\<close>
    by (rule main_calls)
       (simp add: config_values_def field_def cfg_nested_def py_format_def)
  show ?thesis
    unfolding m
    by (simp add: calls_def run_defs pattern_defs repl_defs char_defs world_nested_def
          sub_loop.simps)
qed

text \<open>
  C8. When \<^verbatim>\<open>variables.toml\<close> is absent the run ends with the exception of
  \<^verbatim>\<open>open\<close> in the world it started in: no file is changed, nothing is written or
  printed, no call of \<^verbatim>\<open>replace\<close> is made.
\<close>

theorem absent_config_is_fatal:
  "main Absent w = (w, Some (FileNotFoundError ''variables.toml''))"
  by (simp add: main_def load_def bind_val_def)







end
